theory Spec2Isabelle
  imports Main "HOL-Library.Word"
begin

section \<open>The dynamic array of cu\_array.h\<close>

text \<open>
  The header stores fixed-size items in one heap block and addresses them by unit offsets
  \<open>data + item_size * pos\<close>. The embedding keeps that level: a heap block is the list of
  its storage units, \<open>size_t\<close> is a 64-bit word whose arithmetic wraps (the
  \<open>SIZE_MAX == 0xFFFFFFFFFFFFFFFF\<close> configuration), and a pointer into the block is a
  unit offset. \<open>CU_UNIT\<close> is the default \<open>unsigned char\<close>.

  A storage unit that was allocated but never written holds no determinate value: it is
  \<open>None\<close>. Copying such a unit is allowed, as \<open>memcpy\<close> does.
\<close>

type_synonym size_t = "64 word"
type_synonym cu_unit = "8 word"
type_synonym cell = "cu_unit option"
type_synonym block = "cell list"

text \<open>
  A pointer to a heap block, as the field \<open>data\<close> holds one: \<open>Null\<close> is \<open>NULL\<close>,
  \<open>Block b\<close> points to a block that is allocated and holds the units \<open>b\<close>, and
  \<open>Dangling\<close> points to a block that has been deallocated. A \<open>Dangling\<close> pointer still
  compares unequal to \<open>NULL\<close>.
\<close>

datatype pointer = Null | Block block | Dangling

text \<open>
  \<open>typedef struct cu_array_s { CU_UNIT *data; size_t item_size; size_t length;
  size_t capacity; } cu_array_t;\<close>
  The field \<open>length\<close> is written \<open>length_f\<close>, since \<open>length\<close> is the length of a list.
\<close>

record cu_array_t =
  data :: pointer
  item_size :: size_t
  length_f :: size_t
  capacity :: size_t

text \<open>
  What the C standard leaves undefined and the header does not guard against is a fault:
  a copy of one or more units through \<open>NULL\<close>, a copy that leaves the object it starts
  in, a swap of items larger than the static buffer of the sort, and a use of a pointer
  to a deallocated block: an access through it, or passing it to the sort, to
  \<open>cu_realloc\<close> or to \<open>cu_free\<close>. Comparing such a pointer with \<open>NULL\<close> and adding
  an offset to it, as the guards and \<open>cu_array_at\<close> do, is not counted as a fault.
\<close>

datatype fault = NullDeref | OutOfBounds | ScratchOverflow | UseAfterFree

definition CU_ARRAY_DEFAULT_SIZE :: size_t where
  "CU_ARRAY_DEFAULT_SIZE = 32"

definition CU_ARRAY_MAX_ITEM_SIZE :: size_t where
  "CU_ARRAY_MAX_ITEM_SIZE = 128"

text \<open>\<open>(cu_array_t){0}\<close>\<close>

definition zero_array :: cu_array_t where
  "zero_array = \<lparr>data = Null, item_size = 0, length_f = 0, capacity = 0\<rparr>"

subsection \<open>The allocator and the copy routines\<close>

text \<open>
  The header takes \<open>cu_malloc\<close>, \<open>cu_realloc\<close> and \<open>cu_free\<close> from the C library
  (\<open>malloc\<close>, \<open>realloc\<close>, \<open>free\<close>). Whether the library returns a block is the
  environment's choice: each function that may allocate takes it as its first argument
  (it allocates at most once). \<open>cu_malloc\<close> returns a block of the requested number of
  units, none of them written, or \<open>NULL\<close>, which is \<open>None\<close>.
\<close>

definition cu_malloc :: "bool \<Rightarrow> size_t \<Rightarrow> block option" where
  "cu_malloc heap_ok n = (if heap_ok then Some (replicate (unat n) None) else None)"

text \<open>\<open>cu_free(p)\<close>: nothing happens for \<open>NULL\<close>; a block cannot be deallocated twice.\<close>

definition cu_free :: "pointer \<Rightarrow> fault + unit" where
  "cu_free p = (case p of Dangling \<Rightarrow> Inl UseAfterFree | _ \<Rightarrow> Inr ())"

text \<open>
  \<open>cu_realloc(p, n)\<close> returns the new pointer (\<open>None\<close> is \<open>NULL\<close>) and what the pointer
  \<open>p\<close> refers to afterwards. A new block keeps the old units up to the new size, and the
  old block is gone. When the library returns \<open>NULL\<close> for a request of one or more units,
  the old block is as it was. A request of zero units is implementation-defined in C: the
  library returns a pointer to a block of no units, or it returns \<open>NULL\<close>, and then
  \<open>realloc\<close> of the GNU C library, for which \<open>realloc(p, 0)\<close> is \<open>free(p)\<close>, has
  deallocated the old block.
\<close>

definition cu_realloc :: "bool \<Rightarrow> pointer \<Rightarrow> size_t \<Rightarrow> fault + block option \<times> pointer" where
  "cu_realloc heap_ok p n =
     (case p of
        Dangling \<Rightarrow> Inl UseAfterFree
      | Null \<Rightarrow> Inr (cu_malloc heap_ok n, Null)
      | Block old \<Rightarrow>
          if heap_ok
          then Inr (Some (take (unat n) old @ replicate (unat n - size old) None), Dangling)
          else Inr (None, if n = 0 then Dangling else Block old))"

text \<open>
  \<open>cu_memcpy(dst, src, n)\<close> and \<open>cu_memmove(dst, src, n)\<close> with \<open>dst\<close> a pointer into the
  block \<open>b\<close>, given as its offset (\<open>None\<close> is \<open>NULL\<close>), and \<open>src\<close> given as the units
  readable from the source pointer on (\<open>None\<close> is \<open>NULL\<close>). A copy of zero units touches
  nothing. The model is functional, so the two routines are one definition; the header
  uses \<open>cu_memcpy\<close> only between objects that do not overlap.
\<close>

definition cu_memcpy :: "block \<Rightarrow> nat option \<Rightarrow> cell list option \<Rightarrow> nat \<Rightarrow> fault + block" where
  "cu_memcpy b dst src n =
     (if n = 0 then Inr b
      else case dst of
        None \<Rightarrow> Inl NullDeref
      | Some d \<Rightarrow>
          (case src of
             None \<Rightarrow> Inl NullDeref
           | Some s \<Rightarrow>
               if d + n \<le> size b \<and> n \<le> size s
               then Inr (take d b @ take n s @ drop (d + n) b)
               else Inl OutOfBounds))"

definition cu_memmove :: "block \<Rightarrow> nat option \<Rightarrow> nat option \<Rightarrow> nat \<Rightarrow> fault + block" where
  "cu_memmove b dst src n = cu_memcpy b dst (map_option (\<lambda>s. drop s b) src) n"

subsection \<open>Lifecycle\<close>

text \<open>
  Every function takes the pointer \<open>arr\<close> (\<open>None\<close> is \<open>NULL\<close>) and returns the \<open>int\<close> it
  returns in C together with the structure \<open>arr\<close> points to afterwards, or the fault it
  runs into where it uses \<open>arr->data\<close>.
\<close>

definition cu_array_init :: "bool \<Rightarrow> cu_array_t option \<Rightarrow> size_t \<Rightarrow> int \<times> cu_array_t option" where
  "cu_array_init heap_ok arr isz =
     (case arr of
        None \<Rightarrow> (1, None)
      | Some a \<Rightarrow>
          if data a \<noteq> Null \<or> capacity a \<noteq> 0 then (1, arr)
          else
            (let a1 = zero_array\<lparr>item_size := isz\<rparr>
             in case cu_malloc heap_ok (item_size a1 * CU_ARRAY_DEFAULT_SIZE) of
                  None \<Rightarrow> (1, Some a1)
                | Some b \<Rightarrow> (0, Some (a1\<lparr>data := Block b, capacity := CU_ARRAY_DEFAULT_SIZE\<rparr>))))"

definition cu_array_deinit :: "cu_array_t option \<Rightarrow> fault + int \<times> cu_array_t option" where
  "cu_array_deinit arr =
     (case arr of
        None \<Rightarrow> Inr (1, None)
      | Some a \<Rightarrow>
          if data a = Null \<or> capacity a = 0 then Inr (1, arr)
          else
            (case cu_free (data a) of
               Inl f \<Rightarrow> Inl f
             | Inr _ \<Rightarrow> Inr (0, Some zero_array)))"

definition cu_array_clear :: "cu_array_t option \<Rightarrow> int \<times> cu_array_t option" where
  "cu_array_clear arr =
     (case arr of
        None \<Rightarrow> (1, None)
      | Some a \<Rightarrow> (0, Some (a\<lparr>length_f := 0\<rparr>)))"

text \<open>\<open>cu_array_at\<close> returns \<open>NULL\<close> or the pointer \<open>arr->data + arr->item_size * pos\<close>.\<close>

definition cu_array_at :: "cu_array_t option \<Rightarrow> size_t \<Rightarrow> nat option" where
  "cu_array_at arr pos =
     (case arr of
        None \<Rightarrow> None
      | Some a \<Rightarrow>
          if data a = Null \<or> capacity a = 0 \<or> pos \<ge> length_f a then None
          else Some (unat (item_size a * pos)))"

subsection \<open>Growth and reservation\<close>

text \<open>
  \<open>__cu_array_grow\<close> under \<open>CU_GROWTH_RATE_SPACE\<close>, the default policy:
  \<open>new_capacity = arr->capacity * 2u\<close>, a multiplication of \<open>size_t\<close>. The size passed
  to \<open>cu_realloc\<close> is the product \<open>arr->item_size * new_capacity\<close> in \<open>size_t\<close>. When
  \<open>cu_realloc\<close> returns \<open>NULL\<close> the function returns 1 and writes no field:
  \<open>arr->data\<close> is the old pointer, and what that points to is what \<open>cu_realloc\<close> left.
\<close>

definition cu_array_grow :: "bool \<Rightarrow> cu_array_t option \<Rightarrow> fault + int \<times> cu_array_t option" where
  "cu_array_grow heap_ok arr =
     (case arr of
        None \<Rightarrow> Inr (1, None)
      | Some a \<Rightarrow>
          if data a = Null \<or> capacity a = 0 then Inr (1, arr)
          else
            (let new_capacity = capacity a * 2
             in if new_capacity \<le> length_f a then Inr (1, arr)
                else
                  (case cu_realloc heap_ok (data a) (item_size a * new_capacity) of
                     Inl f \<Rightarrow> Inl f
                   | Inr (None, old) \<Rightarrow> Inr (1, Some (a\<lparr>data := old\<rparr>))
                   | Inr (Some tmp, old) \<Rightarrow>
                       Inr (0, Some (a\<lparr>data := Block tmp, capacity := new_capacity\<rparr>)))))"

definition cu_array_reserve ::
  "bool \<Rightarrow> cu_array_t option \<Rightarrow> size_t \<Rightarrow> fault + int \<times> cu_array_t option" where
  "cu_array_reserve heap_ok arr new_capacity =
     (case arr of
        None \<Rightarrow> Inr (1, None)
      | Some a \<Rightarrow>
          if data a = Null \<or> capacity a = 0 then Inr (1, arr)
          else if capacity a \<ge> new_capacity then Inr (0, arr)
          else
            (case cu_realloc heap_ok (data a) (item_size a * new_capacity) of
               Inl f \<Rightarrow> Inl f
             | Inr (None, old) \<Rightarrow> Inr (1, Some (a\<lparr>data := old\<rparr>))
             | Inr (Some tmp, old) \<Rightarrow>
                 Inr (0, Some (a\<lparr>data := Block tmp, capacity := new_capacity\<rparr>))))"

subsection \<open>Adding and removing items\<close>

text \<open>
  The argument \<open>item\<close> is the pointer the caller passes: \<open>None\<close> for \<open>NULL\<close>, otherwise
  the units readable from it on. After the guard of each function \<open>arr\<close> and
  \<open>arr->data\<close> are dereferenced; the branches for \<open>NULL\<close> there cannot be reached and
  are faults.
\<close>

definition cu_array_append ::
  "bool \<Rightarrow> cu_array_t option \<Rightarrow> cell list option \<Rightarrow> fault + int \<times> cu_array_t option" where
  "cu_array_append heap_ok arr item =
     (case arr of
        None \<Rightarrow> Inr (1, None)
      | Some a \<Rightarrow>
          if item = None \<or> data a = Null \<or> capacity a = 0 then Inr (1, arr)
          else
            (case (if length_f a \<ge> capacity a then cu_array_grow heap_ok arr
                   else Inr (0, arr)) of
               Inl f \<Rightarrow> Inl f
             | Inr (res, arr1) \<Rightarrow>
                 if res \<noteq> 0 then Inr (res, arr1)
                 else
                   (case arr1 of
                      None \<Rightarrow> Inl NullDeref
                    | Some a1 \<Rightarrow>
                        (case data a1 of
                           Null \<Rightarrow> Inl NullDeref
                         | Dangling \<Rightarrow> Inl UseAfterFree
                         | Block b \<Rightarrow>
                             (case cu_memcpy b (Some (unat (item_size a1 * length_f a1))) item
                                     (unat (item_size a1)) of
                                Inl f \<Rightarrow> Inl f
                              | Inr b1 \<Rightarrow>
                                  Inr (0, Some (a1\<lparr>data := Block b1,
                                                    length_f := length_f a1 + 1\<rparr>)))))))"

definition cu_array_extend ::
  "bool \<Rightarrow> cu_array_t option \<Rightarrow> cell list option \<Rightarrow> size_t \<Rightarrow> fault + int \<times> cu_array_t option" where
  "cu_array_extend heap_ok arr items num_items =
     (case arr of
        None \<Rightarrow> Inr (1, None)
      | Some a \<Rightarrow>
          if items = None \<or> data a = Null \<or> capacity a = 0 then Inr (1, arr)
          else
            (case cu_array_reserve heap_ok arr (length_f a + num_items) of
               Inl f \<Rightarrow> Inl f
             | Inr (res, arr1) \<Rightarrow>
                 if res \<noteq> 0 then Inr (1, arr1)
                 else
                   (case arr1 of
                      None \<Rightarrow> Inl NullDeref
                    | Some a1 \<Rightarrow>
                        (case data a1 of
                           Null \<Rightarrow> Inl NullDeref
                         | Dangling \<Rightarrow> Inl UseAfterFree
                         | Block b \<Rightarrow>
                             (case cu_memcpy b (Some (unat (item_size a1 * length_f a1))) items
                                     (unat (num_items * item_size a1)) of
                                Inl f \<Rightarrow> Inl f
                              | Inr b1 \<Rightarrow>
                                  Inr (0, Some (a1\<lparr>data := Block b1,
                                                    length_f := length_f a1 + num_items\<rparr>)))))))"

text \<open>
  \<open>cu_array_insert\<close> and \<open>cu_array_remove_at\<close> take the addresses they move between
  from \<open>cu_array_at\<close>, which compares the position with the length the array has at that
  moment and returns \<open>NULL\<close> from \<open>length\<close> on.
\<close>

definition cu_array_insert ::
  "bool \<Rightarrow> cu_array_t option \<Rightarrow> cell list option \<Rightarrow> size_t \<Rightarrow> fault + int \<times> cu_array_t option" where
  "cu_array_insert heap_ok arr item pos =
     (case arr of
        None \<Rightarrow> Inr (1, None)
      | Some a \<Rightarrow>
          if item = None \<or> data a = Null \<or> capacity a = 0 \<or> pos > length_f a
          then Inr (1, arr)
          else
            (case (if length_f a \<ge> capacity a then cu_array_grow heap_ok arr
                   else Inr (0, arr)) of
               Inl f \<Rightarrow> Inl f
             | Inr (res, arr1) \<Rightarrow>
                 if res \<noteq> 0 then Inr (res, arr1)
                 else
                   (case arr1 of
                      None \<Rightarrow> Inl NullDeref
                    | Some a1 \<Rightarrow>
                        (case data a1 of
                           Null \<Rightarrow> Inl NullDeref
                         | Dangling \<Rightarrow> Inl UseAfterFree
                         | Block b \<Rightarrow>
                             (case cu_memmove b (cu_array_at arr1 (pos + 1))
                                     (cu_array_at arr1 pos)
                                     (unat ((length_f a1 - pos) * item_size a1)) of
                                Inl f \<Rightarrow> Inl f
                              | Inr b1 \<Rightarrow>
                                  (case cu_memcpy b1 (cu_array_at arr1 pos) item
                                          (unat (item_size a1)) of
                                     Inl f \<Rightarrow> Inl f
                                   | Inr b2 \<Rightarrow>
                                       Inr (0, Some (a1\<lparr>data := Block b2,
                                                         length_f := length_f a1 + 1\<rparr>))))))))"

definition cu_array_remove_at ::
  "cu_array_t option \<Rightarrow> size_t \<Rightarrow> fault + int \<times> cu_array_t option" where
  "cu_array_remove_at arr pos =
     (case arr of
        None \<Rightarrow> Inr (1, None)
      | Some a \<Rightarrow>
          if data a = Null \<or> capacity a = 0 \<or> pos \<ge> length_f a then Inr (1, arr)
          else
            (case data a of
               Null \<Rightarrow> Inl NullDeref
             | Dangling \<Rightarrow> Inl UseAfterFree
             | Block b \<Rightarrow>
                 (case cu_memmove b (cu_array_at arr pos) (cu_array_at arr (pos + 1))
                         (unat ((length_f a - pos) * item_size a)) of
                    Inl f \<Rightarrow> Inl f
                  | Inr b1 \<Rightarrow>
                      Inr (0, Some (a\<lparr>data := Block b1, length_f := length_f a - 1\<rparr>)))))"

subsection \<open>Sorting\<close>

text \<open>
  \<open>__cu_array_qsort_internal(data, item_size, len, compare)\<close> works on the \<open>len\<close> items
  at \<open>data\<close>. In the model \<open>mem\<close> is exactly that range of units, and the function returns
  the range as it leaves it; the recursive calls get the ranges \<open>(data, i)\<close> and
  \<open>(data + item_size * i, len - i)\<close>. A read or write of an item outside the range the
  call was given is \<open>OutOfBounds\<close>, also where the block is longer than the range.

  The comparator receives two pointers and reads one item through each: in the model it
  is a function of the two items. The pivot is the pointer
  \<open>data + item_size * (len / 2)\<close>, computed once: the item behind it is read again at
  every comparison, so a swap that moves the middle item changes the pivot value.
\<close>

type_synonym comparator = "cell list \<Rightarrow> cell list \<Rightarrow> int"

definition item_at :: "block \<Rightarrow> size_t \<Rightarrow> nat \<Rightarrow> fault + cell list" where
  "item_at mem sz off =
     (if unat sz = 0 then Inr []
      else if off + unat sz \<le> size mem then Inr (take (unat sz) (drop off mem))
      else Inl OutOfBounds)"

definition compare_at :: "comparator \<Rightarrow> block \<Rightarrow> size_t \<Rightarrow> nat \<Rightarrow> nat \<Rightarrow> fault + int" where
  "compare_at compare mem sz p q =
     (case item_at mem sz p of
        Inl f \<Rightarrow> Inl f
      | Inr x \<Rightarrow> (case item_at mem sz q of Inl f \<Rightarrow> Inl f | Inr y \<Rightarrow> Inr (compare x y)))"

text \<open>\<open>while (compare(data + item_size * i, pivot) < 0) i++;\<close>\<close>

partial_function (option) qsort_scan_up ::
  "comparator \<Rightarrow> block \<Rightarrow> size_t \<Rightarrow> nat \<Rightarrow> size_t \<Rightarrow> (fault + size_t) option" where
  [code]: "qsort_scan_up compare mem sz pivot i =
     (case compare_at compare mem sz (unat (sz * i)) pivot of
        Inl f \<Rightarrow> Some (Inl f)
      | Inr c \<Rightarrow>
          if c < 0 then qsort_scan_up compare mem sz pivot (i + 1) else Some (Inr i))"

text \<open>\<open>while (compare(pivot, data + item_size * j) < 0) j--;\<close>\<close>

partial_function (option) qsort_scan_down ::
  "comparator \<Rightarrow> block \<Rightarrow> size_t \<Rightarrow> nat \<Rightarrow> size_t \<Rightarrow> (fault + size_t) option" where
  [code]: "qsort_scan_down compare mem sz pivot j =
     (case compare_at compare mem sz pivot (unat (sz * j)) of
        Inl f \<Rightarrow> Some (Inl f)
      | Inr c \<Rightarrow>
          if c < 0 then qsort_scan_down compare mem sz pivot (j - 1) else Some (Inr j))"

text \<open>
  The three \<open>cu_memcpy\<close> calls that exchange items \<open>i\<close> and \<open>j\<close> through
  \<open>swap_buffer\<close>, a static array of \<open>CU_ARRAY_MAX_ITEM_SIZE\<close> units. Each exchange writes
  the first \<open>item_size\<close> units of the buffer before it reads them, so what an earlier
  exchange left there plays no role and the buffer starts unwritten here.
\<close>

definition qsort_swap :: "block \<Rightarrow> size_t \<Rightarrow> size_t \<Rightarrow> size_t \<Rightarrow> fault + block" where
  "qsort_swap mem sz i j =
     (if unat sz > unat CU_ARRAY_MAX_ITEM_SIZE then Inl ScratchOverflow
      else
        (case cu_memcpy (replicate (unat CU_ARRAY_MAX_ITEM_SIZE) None) (Some 0)
                (Some (drop (unat (sz * i)) mem)) (unat sz) of
           Inl f \<Rightarrow> Inl f
         | Inr swap_buffer \<Rightarrow>
             (case cu_memmove mem (Some (unat (sz * i))) (Some (unat (sz * j))) (unat sz) of
                Inl f \<Rightarrow> Inl f
              | Inr mem1 \<Rightarrow>
                  cu_memcpy mem1 (Some (unat (sz * j))) (Some swap_buffer) (unat sz))))"

text \<open>
  The loop \<open>for (i = 0, j = len - 1;; i++, j--)\<close>, entered with the current \<open>i\<close> and
  \<open>j\<close>; it returns the range and the \<open>i\<close> it breaks with.
\<close>

partial_function (option) qsort_partition ::
  "comparator \<Rightarrow> size_t \<Rightarrow> nat \<Rightarrow> block \<Rightarrow> size_t \<Rightarrow> size_t \<Rightarrow> (fault + block \<times> size_t) option" where
  [code]: "qsort_partition compare sz pivot mem i j =
     (case qsort_scan_up compare mem sz pivot i of
        None \<Rightarrow> None
      | Some (Inl f) \<Rightarrow> Some (Inl f)
      | Some (Inr i1) \<Rightarrow>
          (case qsort_scan_down compare mem sz pivot j of
             None \<Rightarrow> None
           | Some (Inl f) \<Rightarrow> Some (Inl f)
           | Some (Inr j1) \<Rightarrow>
               if i1 \<ge> j1 then Some (Inr (mem, i1))
               else
                 (case qsort_swap mem sz i1 j1 of
                    Inl f \<Rightarrow> Some (Inl f)
                  | Inr mem1 \<Rightarrow> qsort_partition compare sz pivot mem1 (i1 + 1) (j1 - 1))))"

partial_function (option) cu_array_qsort_internal ::
  "comparator \<Rightarrow> block \<Rightarrow> size_t \<Rightarrow> size_t \<Rightarrow> (fault + block) option" where
  [code]: "cu_array_qsort_internal compare mem sz len =
     (if len < 2 then Some (Inr mem)
      else
        (case qsort_partition compare sz (unat (sz * (len div 2))) mem 0 (len - 1) of
           None \<Rightarrow> None
         | Some (Inl f) \<Rightarrow> Some (Inl f)
         | Some (Inr (mem1, i)) \<Rightarrow>
             Option.bind (cu_array_qsort_internal compare (take (unat (sz * i)) mem1) sz i)
               (\<lambda>r1. case r1 of
                  Inl f \<Rightarrow> Some (Inl f)
                | Inr lo \<Rightarrow>
                    Option.bind
                      (cu_array_qsort_internal compare (drop (unat (sz * i)) mem1) sz (len - i))
                      (\<lambda>r2. case r2 of
                         Inl f \<Rightarrow> Some (Inl f)
                       | Inr hi \<Rightarrow> Some (Inr (lo @ hi))))))"

text \<open>
  \<open>cu_array_qsort\<close> passes \<open>arr->data\<close>, \<open>arr->item_size\<close> and \<open>arr->length\<close>: the range
  is the first \<open>length\<close> items of the block. \<open>None\<close> is a call that does not return.
\<close>

definition cu_array_qsort ::
  "cu_array_t option \<Rightarrow> comparator \<Rightarrow> (fault + int \<times> cu_array_t option) option" where
  "cu_array_qsort arr compare =
     (case arr of
        None \<Rightarrow> Some (Inr (1, None))
      | Some a \<Rightarrow>
          if data a = Null \<or> capacity a = 0 then Some (Inr (1, arr))
          else
            (case data a of
               Null \<Rightarrow> Some (Inl NullDeref)
             | Dangling \<Rightarrow> Some (Inl UseAfterFree)
             | Block b \<Rightarrow>
                 (let n = unat (item_size a) * unat (length_f a)
                  in case cu_array_qsort_internal compare (take n b) (item_size a) (length_f a) of
                       None \<Rightarrow> None
                     | Some (Inl f) \<Rightarrow> Some (Inl f)
                     | Some (Inr mem1) \<Rightarrow>
                         Some (Inr (0, Some (a\<lparr>data := Block (mem1 @ drop n b)\<rparr>))))))"

subsection \<open>Callers\<close>

text \<open>
  What a caller reads through the pointer \<open>cu_array_at\<close> returns, as the tests do with
  \<open>*(int *)cu_array_at(&arr, i)\<close>: the \<open>item_size\<close> units behind it, or nothing when the
  pointer is \<open>NULL\<close>, the item does not lie in the block or the block is deallocated.
\<close>

definition item_of :: "cu_array_t \<Rightarrow> size_t \<Rightarrow> cell list option" where
  "item_of a pos =
     (case cu_array_at (Some a) pos of
        None \<Rightarrow> None
      | Some off \<Rightarrow>
          (case data a of
             Block b \<Rightarrow>
               if off + unat (item_size a) \<le> size b
               then Some (take (unat (item_size a)) (drop off b))
               else None
           | _ \<Rightarrow> None))"

text \<open>The units of the items in use: the first \<open>length\<close> items of the block.\<close>

definition contents :: "cu_array_t \<Rightarrow> cell list" where
  "contents a =
     (case data a of
        Block b \<Rightarrow> take (unat (item_size a) * unat (length_f a)) b
      | _ \<Rightarrow> [])"

text \<open>
  An initialized array: the buffer is there and allocated, the capacity is not zero and
  not below the length, and the block is the \<open>item_size * capacity\<close> units the capacity
  stands for, a size that \<open>size_t\<close> can hold.
\<close>

definition initialized :: "cu_array_t \<Rightarrow> bool" where
  "initialized a =
     (case data a of
        Block b \<Rightarrow>
          capacity a \<noteq> 0 \<and> length_f a \<le> capacity a
          \<and> size b = unat (item_size a) * unat (capacity a)
          \<and> size b < 2 ^ 64
      | _ \<Rightarrow> False)"

text \<open>
  A caller that appends one item after the other and stops at the first call that does
  not return 0. Each step carries the allocator's answer for that call and the pointer
  passed as \<open>item\<close>.
\<close>

fun append_all ::
  "cu_array_t option \<Rightarrow> (bool \<times> cell list option) list \<Rightarrow> fault + int \<times> cu_array_t option" where
  "append_all arr [] = Inr (0, arr)"
| "append_all arr ((heap_ok, item) # rest) =
     (case cu_array_append heap_ok arr item of
        Inl f \<Rightarrow> Inl f
      | Inr (res, arr1) \<Rightarrow> if res \<noteq> 0 then Inr (res, arr1) else append_all arr1 rest)"



text \<open>
  A comparator consistent with a total order: the sign of \<open>compare x y\<close> is opposite to
  that of \<open>compare y x\<close>, and \<open>compare x y \<le> 0\<close> is transitive. Items may compare equal.
\<close>

definition total_order :: "comparator \<Rightarrow> bool" where
  "total_order compare \<longleftrightarrow>
     (\<forall>x y. (compare x y < 0) = (compare y x > 0))
     \<and> (\<forall>x y z. compare x y \<le> 0 \<and> compare y z \<le> 0 \<longrightarrow> compare x z \<le> 0)"

text \<open>
  A comparator for arrays of \<open>unsigned char\<close>, in the way of \<open>cu_compare_int\<close>: the
  difference of the two values, which for \<open>unsigned char\<close> cannot overflow \<open>int\<close>.
\<close>

definition uchar_value :: "cell list \<Rightarrow> int" where
  "uchar_value x = (case x of Some u # _ \<Rightarrow> uint u | _ \<Rightarrow> 0)"

definition compare_uchar :: comparator where
  "compare_uchar x y = uchar_value x - uchar_value y"

text \<open>
  Arrays of \<open>unsigned char\<close> as \<open>cu_array_init\<close> and a \<open>cu_array_extend\<close> with the
  listed values leave them: \<open>item_size\<close> 1, capacity 32.
\<close>

definition uchar_array :: "cu_unit list \<Rightarrow> cu_array_t" where
  "uchar_array xs =
     \<lparr>data = Block (map Some xs @ replicate (32 - size xs) None),
      item_size = 1, length_f = of_nat (size xs), capacity = 32\<rparr>"

text \<open>
  The same array once its capacity is 70, as in the program of \<open>main.c\<close> after the
  growth at its first insertion.
\<close>

definition demo_array :: "cu_unit list \<Rightarrow> cu_array_t" where
  "demo_array xs =
     \<lparr>data = Block (map Some xs @ replicate (70 - size xs) None),
      item_size = 1, length_f = of_nat (size xs), capacity = 70\<rparr>"

text \<open>
  An array of items of four units, as \<open>cu_array_init(&arr, sizeof(int))\<close> and a
  \<open>cu_array_extend\<close> with the listed units leave it where \<open>sizeof(int)\<close> is 4:
  capacity 32, a block of 128 units.
\<close>

definition int_array :: "cu_unit list \<Rightarrow> cu_array_t" where
  "int_array us =
     \<lparr>data = Block (map Some us @ replicate (128 - size us) None),
      item_size = 4, length_f = of_nat (size us div 4), capacity = 32\<rparr>"

text \<open>
  Item number \<open>k\<close> of a range of items of \<open>s\<close> units each, and the range with the units
  \<open>xs\<close> written at offset \<open>d\<close>: what a comparator reads and what a copy leaves.
\<close>

definition nth_item :: "nat \<Rightarrow> block \<Rightarrow> nat \<Rightarrow> cell list" where
  "nth_item s mem k = take s (drop (s * k) mem)"

definition write_at :: "block \<Rightarrow> nat \<Rightarrow> cell list \<Rightarrow> block" where
  "write_at mem d xs = take d mem @ xs @ drop (d + size xs) mem"

text \<open>
  The range a call of the sort is given is well formed when it holds exactly \<open>len\<close> items
  of \<open>item_size\<close> units and its size is one that \<open>size_t\<close> can hold.
\<close>

definition range_ok :: "block \<Rightarrow> size_t \<Rightarrow> size_t \<Rightarrow> bool" where
  "range_ok mem sz len \<longleftrightarrow> size mem = unat sz * unat len \<and> size mem < 2 ^ 64"

section \<open>Properties\<close>

subsection \<open>Arithmetic of \<open>size_t\<close>\<close>

lemma mod_wrap_less:
  fixes m :: nat
  assumes "m < n" and "k \<le> m" and "n \<le> m + k"
  shows "(m + k) mod n < m"
proof -
  have "(m + k) mod n = (m + k - n) mod n" using assms(3) by (rule le_mod_geq)
  also have "m + k - n < n" using assms by linarith
  then have "(m + k - n) mod n = m + k - n" by simp
  finally show ?thesis using assms by linarith
qed

lemma double_no_wrap:
  fixes c :: size_t
  assumes "c < c * 2"
  shows "unat (c * 2) = 2 * unat c"
proof -
  have u: "unat c < 2 ^ 64" using unsigned_less[of c] by simp
  from assms have l: "unat c < (unat c + unat c) mod 2 ^ 64"
    by (simp add: word_less_nat_alt unat_word_ariths mult_2_right)
  have "unat c + unat c < 2 ^ 64"
  proof (rule ccontr)
    assume "\<not> unat c + unat c < 2 ^ 64"
    then have "(unat c + unat c) mod 2 ^ 64 < unat c"
      using u by (intro mod_wrap_less) simp_all
    with l show False by simp
  qed
  then show ?thesis by (simp add: unat_word_ariths mult_2_right)
qed

lemma word_pred_le:
  fixes l :: size_t
  assumes "\<not> l \<le> pos" and "l \<le> c"
  shows "l - 1 \<le> c"
proof -
  from assms(1) have "l \<noteq> 0" by auto
  then have "unat (l - 1) < unat l" by (rule measure_unat)
  with assms(2) show ?thesis by (simp add: word_le_nat_alt)
qed

subsection \<open>Running the functions on given arrays\<close>

lemma replicate_unfold: "replicate (numeral n) c = c # replicate (pred_numeral n) c"
  by (simp add: numeral_eq_Suc)

lemmas run_defs =
  uchar_array_def cu_array_at_def cu_memmove_def cu_memcpy_def item_of_def
  word_le_nat_alt word_less_nat_alt replicate_unfold

lemma uchar_array_from_init:
  "cu_array_init True (Some zero_array) 1 = (0, Some (uchar_array []))"
  by (simp add: cu_array_init_def zero_array_def cu_malloc_def CU_ARRAY_DEFAULT_SIZE_def
      uchar_array_def)

lemma uchar_array_from_extend:
  "cu_array_extend heap_ok (Some (uchar_array [])) (Some [Some 7, Some 8]) 2
     = Inr (0, Some (uchar_array [7, 8]))"
  by (simp add: cu_array_extend_def cu_array_reserve_def run_defs)

lemma total_order_compare_uchar: "total_order compare_uchar"
  by (auto simp: total_order_def compare_uchar_def)

subsection \<open>The runs of the test file\<close>

text \<open>
  The test cases of \<open>tests/test_cu_array.c\<close> that add, insert, remove and sort, run on
  the model with \<open>unsigned char\<close> items in place of \<open>int\<close>: each check of the test holds.
\<close>

lemma test_append_and_at:
  "cu_array_append True (Some (uchar_array [])) (Some [Some 1]) = Inr (0, Some (uchar_array [1]))"
  "item_of (uchar_array [1]) 0 = Some [Some 1]"
  by (simp_all add: cu_array_append_def run_defs)

lemma test_extend:
  "cu_array_extend True (Some (uchar_array [])) (Some (map Some [0, 1, 2, 3, 4])) 5
     = Inr (0, Some (uchar_array [0, 1, 2, 3, 4]))"
  "map (item_of (uchar_array [0, 1, 2, 3, 4])) [0, 1, 2, 3, 4]
     = [Some [Some 0], Some [Some 1], Some [Some 2], Some [Some 3], Some [Some 4]]"
  by (simp_all add: cu_array_extend_def cu_array_reserve_def run_defs)

lemma test_insert:
  "cu_array_insert True (Some (uchar_array [0, 1, 2, 3, 4])) (Some [Some 3]) 2
     = Inr (0, Some (uchar_array [0, 1, 3, 2, 3, 4]))"
  "item_of (uchar_array [0, 1, 3, 2, 3, 4]) 2 = Some [Some 3]"
  by (simp_all add: cu_array_insert_def run_defs)

lemma test_remove_at:
  "cu_array_remove_at (Some (uchar_array [0, 1, 2, 3, 4])) 2
     = Inr (0, Some (uchar_array [0, 1, 3, 4]))"
  "cu_array_remove_at (Some (uchar_array [0, 1, 3, 4])) 2
     = Inr (0, Some (uchar_array [0, 1, 4]))"
  "map (item_of (uchar_array [0, 1, 4])) [0, 1, 2] = [Some [Some 0], Some [Some 1], Some [Some 4]]"
  by (simp_all add: cu_array_remove_at_def run_defs)

lemma test_qsort_internal:
  "cu_array_qsort_internal compare_uchar [Some 0, Some 3, Some 4, Some 1, Some 2] 1 5
     = Some (Inr [Some 0, Some 1, Some 2, Some 3, Some 4])"
  by code_simp

lemma test_qsort:
  "cu_array_qsort (Some (uchar_array [0, 3, 4, 1, 2])) compare_uchar
     = Some (Inr (0, Some (uchar_array [0, 1, 2, 3, 4])))"
  using test_qsort_internal by (simp add: cu_array_qsort_def run_defs)

subsection \<open>A failed call\<close>

lemma same_data: "data a = p \<Longrightarrow> a\<lparr>data := p\<rparr> = a"
  by auto

text \<open>
  A call that returns a value other than 0 has written no field of the structure. The
  block behind \<open>data\<close> is as it was, with one exception: the call went as far as
  \<open>cu_realloc\<close>, the size it asked for, a product in \<open>size_t\<close>, was zero, and
  \<open>cu_realloc\<close> deallocated the block and returned \<open>NULL\<close>.
\<close>

lemma grow_failure:
  "cu_array_grow heap_ok (Some a) = Inr (res, arr1) \<Longrightarrow> res \<noteq> 0 \<Longrightarrow>
     arr1 = Some a
     \<or> (item_size a * (capacity a * 2) = 0 \<and> arr1 = Some (a\<lparr>data := Dangling\<rparr>))"
  by (auto simp: cu_array_grow_def cu_realloc_def cu_malloc_def Let_def same_data
      split: if_splits option.splits sum.splits prod.splits pointer.splits)

lemma reserve_failure:
  "cu_array_reserve heap_ok (Some a) n = Inr (res, arr1) \<Longrightarrow> res \<noteq> 0 \<Longrightarrow>
     arr1 = Some a \<or> (item_size a * n = 0 \<and> arr1 = Some (a\<lparr>data := Dangling\<rparr>))"
  by (auto simp: cu_array_reserve_def cu_realloc_def cu_malloc_def same_data
      split: if_splits option.splits sum.splits prod.splits pointer.splits)

lemma append_failure:
  assumes "cu_array_append heap_ok (Some a) item = Inr (res, arr1)" and "res \<noteq> 0"
  shows "arr1 = Some a
     \<or> (item_size a * (capacity a * 2) = 0 \<and> arr1 = Some (a\<lparr>data := Dangling\<rparr>))"
proof (cases "item = None \<or> data a = Null \<or> capacity a = 0")
  case True
  then show ?thesis using assms by (auto simp: cu_array_append_def)
next
  case False
  show ?thesis
  proof (cases "capacity a \<le> length_f a")
    case True
    with False assms have "cu_array_grow heap_ok (Some a) = Inr (res, arr1)"
      by (auto simp: cu_array_append_def
          split: sum.splits prod.splits if_splits option.splits pointer.splits)
    then show ?thesis using assms(2) by (rule grow_failure)
  next
    case nofull: False
    with False assms show ?thesis
      by (auto simp: cu_array_append_def
          split: sum.splits prod.splits if_splits option.splits pointer.splits)
  qed
qed

lemma extend_failure:
  assumes "cu_array_extend heap_ok (Some a) items n = Inr (res, arr1)" and "res \<noteq> 0"
  shows "arr1 = Some a
     \<or> (item_size a * (length_f a + n) = 0 \<and> arr1 = Some (a\<lparr>data := Dangling\<rparr>))"
proof (cases "items = None \<or> data a = Null \<or> capacity a = 0")
  case True
  then show ?thesis using assms by (auto simp: cu_array_extend_def)
next
  case False
  with assms obtain r where "cu_array_reserve heap_ok (Some a) (length_f a + n) = Inr (r, arr1)"
    and "r \<noteq> 0"
    by (auto simp: cu_array_extend_def
        split: sum.splits prod.splits if_splits option.splits pointer.splits)
  then show ?thesis by (rule reserve_failure)
qed

lemma insert_failure:
  assumes "cu_array_insert heap_ok (Some a) item pos = Inr (res, arr1)" and "res \<noteq> 0"
  shows "arr1 = Some a
     \<or> (item_size a * (capacity a * 2) = 0 \<and> arr1 = Some (a\<lparr>data := Dangling\<rparr>))"
proof (cases "item = None \<or> data a = Null \<or> capacity a = 0 \<or> length_f a < pos")
  case True
  then show ?thesis using assms by (auto simp: cu_array_insert_def)
next
  case False
  show ?thesis
  proof (cases "capacity a \<le> length_f a")
    case True
    with False assms have "cu_array_grow heap_ok (Some a) = Inr (res, arr1)"
      by (auto simp: cu_array_insert_def
          split: sum.splits prod.splits if_splits option.splits pointer.splits)
    then show ?thesis using assms(2) by (rule grow_failure)
  next
    case nofull: False
    with False assms show ?thesis
      by (auto simp: cu_array_insert_def
          split: sum.splits prod.splits if_splits option.splits pointer.splits)
  qed
qed

lemma remove_at_failure:
  "cu_array_remove_at (Some a) pos = Inr (res, arr1) \<Longrightarrow> res \<noteq> 0 \<Longrightarrow> arr1 = Some a"
  by (auto simp: cu_array_remove_at_def split: if_splits pointer.splits sum.splits)

lemma int_array_from_init:
  "cu_array_init True (Some zero_array) 4 = (0, Some (int_array []))"
  "cu_array_extend True (Some (int_array [])) (Some (map Some [1, 0, 0, 0, 2, 0, 0, 0])) 2
     = Inr (0, Some (int_array [1, 0, 0, 0, 2, 0, 0, 0]))"
  by (simp_all add: cu_array_init_def zero_array_def cu_malloc_def CU_ARRAY_DEFAULT_SIZE_def
      int_array_def cu_array_extend_def cu_array_reserve_def cu_memcpy_def
      word_le_nat_alt word_less_nat_alt replicate_unfold)

text \<open>
  An array of items of no units: \<open>cu_array_init(&arr, 0)\<close>, for which \<open>cu_malloc\<close>
  returns a block of no units, and 32 appends fill it. The next append has
  \<open>__cu_array_grow\<close> ask \<open>cu_realloc\<close> for zero units: with \<open>NULL\<close> as the answer the
  block is deallocated, the append returns 1, and \<open>cu_array_deinit\<close> deallocates the
  block again.
\<close>

lemma zero_size_items_run:
  "cu_array_init True (Some zero_array) 0
     = (0, Some \<lparr>data = Block [], item_size = 0, length_f = 0, capacity = 32\<rparr>)"
  "append_all (Some \<lparr>data = Block [], item_size = 0, length_f = 0, capacity = 32\<rparr>)
       (replicate 32 (True, Some []))
     = Inr (0, Some \<lparr>data = Block [], item_size = 0, length_f = 32, capacity = 32\<rparr>)"
  "cu_array_append False
       (Some \<lparr>data = Block [], item_size = 0, length_f = 32, capacity = 32\<rparr>) (Some [])
     = Inr (1, Some \<lparr>data = Dangling, item_size = 0, length_f = 32, capacity = 32\<rparr>)"
  "cu_array_deinit (Some \<lparr>data = Dangling, item_size = 0, length_f = 32, capacity = 32\<rparr>)
     = Inl UseAfterFree"
  by (simp_all add: cu_array_init_def zero_array_def cu_malloc_def CU_ARRAY_DEFAULT_SIZE_def
      cu_array_append_def cu_array_grow_def cu_realloc_def cu_array_deinit_def cu_free_def
      cu_memcpy_def word_le_nat_alt word_less_nat_alt replicate_unfold)

text \<open>
  C4. The property: when Append, Extend, Insert, RemoveAt or Reserve returns a value
  other than 0, the length, the capacity, the item size and the stored items are what
  they were before the call. The code does not have it. \<open>cu_array_reserve\<close> and
  \<open>cu_array_extend\<close> pass the product \<open>item_size * new_capacity\<close> to \<open>cu_realloc\<close>
  unchecked. For an array of two items of four units and the capacity \<open>2 ^ 62\<close> the
  product is zero in \<open>size_t\<close>: \<open>realloc\<close> of the GNU C library deallocates the block and
  returns \<open>NULL\<close>, and the call returns 1. The three fields are unchanged and \<open>data\<close> is
  the old pointer, but the stored items are gone: no item can be read any more, and
  \<open>cu_array_deinit\<close> deallocates the block a second time.
\<close>

theorem failed_reserve_frees_buffer:
  "initialized (int_array [1, 0, 0, 0, 2, 0, 0, 0])
   \<and> item_of (int_array [1, 0, 0, 0, 2, 0, 0, 0]) 1 = Some [Some 2, Some 0, Some 0, Some 0]
   \<and> item_size (int_array [1, 0, 0, 0, 2, 0, 0, 0]) * 4611686018427387904 = 0
   \<and> cu_array_reserve False (Some (int_array [1, 0, 0, 0, 2, 0, 0, 0])) 4611686018427387904
       = Inr (1, Some ((int_array [1, 0, 0, 0, 2, 0, 0, 0])\<lparr>data := Dangling\<rparr>))
   \<and> cu_array_extend False (Some (int_array [1, 0, 0, 0, 2, 0, 0, 0]))
         (Some [Some 3, Some 0, Some 0, Some 0]) 4611686018427387902
       = Inr (1, Some ((int_array [1, 0, 0, 0, 2, 0, 0, 0])\<lparr>data := Dangling\<rparr>))
   \<and> item_of ((int_array [1, 0, 0, 0, 2, 0, 0, 0])\<lparr>data := Dangling\<rparr>) 1 = None
   \<and> contents (int_array [1, 0, 0, 0, 2, 0, 0, 0])
       = map Some [1, 0, 0, 0, 2, 0, 0, 0]
   \<and> contents ((int_array [1, 0, 0, 0, 2, 0, 0, 0])\<lparr>data := Dangling\<rparr>) = []
   \<and> cu_array_deinit (Some ((int_array [1, 0, 0, 0, 2, 0, 0, 0])\<lparr>data := Dangling\<rparr>))
       = Inl UseAfterFree"
  by (simp add: initialized_def int_array_def item_of_def cu_array_at_def contents_def
      cu_array_reserve_def cu_array_extend_def cu_realloc_def cu_array_deinit_def cu_free_def
      word_le_nat_alt word_less_nat_alt replicate_unfold)

subsection \<open>Capacity\<close>

lemma grow_success:
  "cu_array_grow heap_ok (Some a) = Inr (0, Some a1) \<Longrightarrow>
     capacity a1 = capacity a * 2 \<and> length_f a1 = length_f a \<and> item_size a1 = item_size a
     \<and> length_f a < capacity a1"
  by (auto simp: cu_array_grow_def Let_def
      split: if_splits option.splits pointer.splits sum.splits prod.splits)

lemma grow_exact:
  assumes "cu_array_grow heap_ok (Some a) = Inr (0, Some a1)" and "capacity a \<le> length_f a"
  shows "unat (capacity a1) = 2 * unat (capacity a)"
proof -
  from grow_success[OF assms(1)]
  have c: "capacity a1 = capacity a * 2" and l: "length_f a < capacity a * 2" by auto
  from l assms(2) have "capacity a < capacity a * 2" by simp
  then show ?thesis unfolding c by (rule double_no_wrap)
qed

lemma grow_rejects:
  "capacity a * 2 \<le> length_f a \<Longrightarrow> cu_array_grow heap_ok (Some a) = Inr (1, Some a)"
  by (auto simp: cu_array_grow_def Let_def split: option.splits pointer.splits)

lemma append_capacity:
  "cu_array_append heap_ok (Some a) item = Inr (0, Some a1) \<Longrightarrow>
     length_f a1 \<le> capacity a1 \<and> (capacity a1 \<noteq> capacity a \<longrightarrow> capacity a \<le> length_f a)"
  by (auto simp: cu_array_append_def cu_array_grow_def Let_def inc_le
      split: if_splits option.splits pointer.splits sum.splits prod.splits)

lemma insert_capacity:
  "cu_array_insert heap_ok (Some a) item pos = Inr (0, Some a1) \<Longrightarrow>
     length_f a1 \<le> capacity a1 \<and> (capacity a1 \<noteq> capacity a \<longrightarrow> capacity a \<le> length_f a)"
  by (auto simp: cu_array_insert_def cu_array_grow_def Let_def inc_le
      split: if_splits option.splits pointer.splits sum.splits prod.splits)

lemma reserve_capacity:
  "cu_array_reserve heap_ok (Some a) n = Inr (0, Some a1) \<Longrightarrow>
     n \<le> capacity a1 \<and> capacity a \<le> capacity a1 \<and> length_f a1 = length_f a
     \<and> (capacity a1 \<noteq> capacity a \<longrightarrow> capacity a < n)"
  by (auto simp: cu_array_reserve_def
      split: if_splits option.splits pointer.splits sum.splits prod.splits)

lemma extend_capacity:
  "cu_array_extend heap_ok (Some a) items n = Inr (0, Some a1) \<Longrightarrow>
     length_f a1 \<le> capacity a1
     \<and> (capacity a1 \<noteq> capacity a \<longrightarrow> capacity a < length_f a + n)"
  by (auto simp: cu_array_extend_def cu_array_reserve_def Let_def
      split: if_splits option.splits pointer.splits sum.splits prod.splits)

lemma remove_at_capacity:
  "cu_array_remove_at (Some a) pos = Inr (0, Some a1) \<Longrightarrow> length_f a \<le> capacity a \<Longrightarrow>
     length_f a1 \<le> capacity a1 \<and> capacity a1 = capacity a"
  by (auto simp: cu_array_remove_at_def split: if_splits option.splits pointer.splits sum.splits
      intro: word_pred_le)

lemma clear_capacity:
  "cu_array_clear (Some a) = (0, Some a1) \<Longrightarrow> length_f a1 \<le> capacity a1 \<and> capacity a1 = capacity a"
  by (auto simp: cu_array_clear_def)

text \<open>
  C5. A successful Append, Extend, Insert, RemoveAt, Reserve or Clear leaves the length
  at most the capacity (RemoveAt and Reserve keep it so when it held before). The capacity
  changes only in a call whose write needs it: in Append and Insert when the array is
  full, in Extend and Reserve when the requested capacity is above the current one, never
  in RemoveAt and Clear. A successful grow sets the capacity to \<open>capacity * 2\<close> in
  \<open>size_t\<close>, which is exactly twice the old value whenever the array is full, as it is
  in every call from Append and Insert; and grow fails when \<open>capacity * 2\<close> does not
  exceed the length.
\<close>

theorem capacity_not_below_length:
  "(cu_array_append ok1 (Some a) item = Inr (0, Some a1) \<longrightarrow>
      length_f a1 \<le> capacity a1 \<and> (capacity a1 \<noteq> capacity a \<longrightarrow> capacity a \<le> length_f a))
   \<and> (cu_array_extend ok2 (Some b) items n = Inr (0, Some b1) \<longrightarrow>
      length_f b1 \<le> capacity b1
      \<and> (capacity b1 \<noteq> capacity b \<longrightarrow> capacity b < length_f b + n))
   \<and> (cu_array_insert ok3 (Some c) item3 pos = Inr (0, Some c1) \<longrightarrow>
      length_f c1 \<le> capacity c1 \<and> (capacity c1 \<noteq> capacity c \<longrightarrow> capacity c \<le> length_f c))
   \<and> (length_f d \<le> capacity d \<and> cu_array_remove_at (Some d) rpos = Inr (0, Some d1) \<longrightarrow>
      length_f d1 \<le> capacity d1 \<and> capacity d1 = capacity d)
   \<and> (length_f e \<le> capacity e \<and> cu_array_reserve ok5 (Some e) m = Inr (0, Some e1) \<longrightarrow>
      length_f e1 \<le> capacity e1 \<and> (capacity e1 \<noteq> capacity e \<longrightarrow> capacity e < m))
   \<and> (cu_array_clear (Some f) = (0, Some f1) \<longrightarrow>
      length_f f1 \<le> capacity f1 \<and> capacity f1 = capacity f)
   \<and> (cu_array_grow ok7 (Some g) = Inr (0, Some g1) \<longrightarrow>
      capacity g1 = capacity g * 2
      \<and> (capacity g \<le> length_f g \<longrightarrow> unat (capacity g1) = 2 * unat (capacity g)))
   \<and> (capacity h * 2 \<le> length_f h \<longrightarrow> cu_array_grow ok8 (Some h) = Inr (1, Some h))"
proof (intro conjI impI)
  show "length_f a1 \<le> capacity a1" if "cu_array_append ok1 (Some a) item = Inr (0, Some a1)"
    using append_capacity[OF that] by auto
  show "capacity a \<le> length_f a"
    if "cu_array_append ok1 (Some a) item = Inr (0, Some a1)" "capacity a1 \<noteq> capacity a"
    using append_capacity[OF that(1)] that(2) by auto
  show "length_f b1 \<le> capacity b1" if "cu_array_extend ok2 (Some b) items n = Inr (0, Some b1)"
    using extend_capacity[OF that] by auto
  show "capacity b < length_f b + n"
    if "cu_array_extend ok2 (Some b) items n = Inr (0, Some b1)" "capacity b1 \<noteq> capacity b"
    using extend_capacity[OF that(1)] that(2) by auto
  show "length_f c1 \<le> capacity c1"
    if "cu_array_insert ok3 (Some c) item3 pos = Inr (0, Some c1)"
    using insert_capacity[OF that] by auto
  show "capacity c \<le> length_f c"
    if "cu_array_insert ok3 (Some c) item3 pos = Inr (0, Some c1)" "capacity c1 \<noteq> capacity c"
    using insert_capacity[OF that(1)] that(2) by auto
  show "length_f d1 \<le> capacity d1"
    if "length_f d \<le> capacity d \<and> cu_array_remove_at (Some d) rpos = Inr (0, Some d1)"
    using remove_at_capacity[of d rpos d1] that by auto
  show "capacity d1 = capacity d"
    if "length_f d \<le> capacity d \<and> cu_array_remove_at (Some d) rpos = Inr (0, Some d1)"
    using remove_at_capacity[of d rpos d1] that by auto
  show "length_f e1 \<le> capacity e1"
    if "length_f e \<le> capacity e \<and> cu_array_reserve ok5 (Some e) m = Inr (0, Some e1)"
    using reserve_capacity[of ok5 e m e1] that by auto
  show "capacity e < m"
    if "length_f e \<le> capacity e \<and> cu_array_reserve ok5 (Some e) m = Inr (0, Some e1)"
      "capacity e1 \<noteq> capacity e"
    using reserve_capacity[of ok5 e m e1] that by auto
  show "length_f f1 \<le> capacity f1" if "cu_array_clear (Some f) = (0, Some f1)"
    using clear_capacity[OF that] by auto
  show "capacity f1 = capacity f" if "cu_array_clear (Some f) = (0, Some f1)"
    using clear_capacity[OF that] by auto
  show "capacity g1 = capacity g * 2" if "cu_array_grow ok7 (Some g) = Inr (0, Some g1)"
    using grow_success[OF that] by auto
  show "unat (capacity g1) = 2 * unat (capacity g)"
    if "cu_array_grow ok7 (Some g) = Inr (0, Some g1)" "capacity g \<le> length_f g"
    using that by (rule grow_exact)
  show "cu_array_grow ok8 (Some h) = Inr (1, Some h)" if "capacity h * 2 \<le> length_f h"
    using that by (rule grow_rejects)
qed


theorem capacity_not_below_length_witness:
  "cu_array_append True (Some (uchar_array (replicate 32 7))) (Some [Some 9])
     = Inr (0, Some \<lparr>data = Block (replicate 32 (Some 7) @ Some 9 # replicate 31 None),
                      item_size = 1, length_f = 33, capacity = 64\<rparr>)
   \<and> cu_array_extend True (Some (uchar_array [7, 8])) (Some (replicate 31 (Some 9))) 31
     = Inr (0, Some \<lparr>data = Block (Some 7 # Some 8 # replicate 31 (Some 9)),
                      item_size = 1, length_f = 33, capacity = 33\<rparr>)
   \<and> cu_array_insert True (Some (uchar_array (replicate 32 7))) (Some [Some 9]) 0
     = Inr (0, Some \<lparr>data = Block (Some 9 # replicate 32 (Some 7) @ replicate 31 None),
                      item_size = 1, length_f = 33, capacity = 64\<rparr>)
   \<and> cu_array_remove_at (Some (uchar_array [7, 8])) 0 = Inr (0, Some (uchar_array [8]))
   \<and> cu_array_reserve True (Some (uchar_array [7, 8])) 33
     = Inr (0, Some \<lparr>data = Block (Some 7 # Some 8 # replicate 31 None),
                  item_size = 1, length_f = 2, capacity = 33\<rparr>)
   \<and> cu_array_clear (Some (uchar_array [7, 8])) = (0, Some (uchar_array [7, 8]\<lparr>length_f := 0\<rparr>))
   \<and> cu_array_grow True (Some (uchar_array (replicate 32 7)))
     = Inr (0, Some \<lparr>data = Block (replicate 32 (Some 7) @ replicate 32 None),
                  item_size = 1, length_f = 32, capacity = 64\<rparr>)
   \<and> cu_array_grow True (Some \<lparr>data = Block [], item_size = 0, length_f = 0,
                                   capacity = 9223372036854775808\<rparr>)
     = Inr (1, Some \<lparr>data = Block [], item_size = 0, length_f = 0, capacity = 9223372036854775808\<rparr>)
   \<and> unat (64 :: size_t) = 2 * unat (32 :: size_t)
   \<and> (33 :: size_t) \<le> 64 \<and> (32 :: size_t) < 2 + 31"
proof -
  let ?full = "uchar_array (replicate 32 7)"
  let ?two = "uchar_array [7, 8]"
  let ?a1 = "\<lparr>data = Block (replicate 32 (Some 7) @ Some 9 # replicate 31 None),
                      item_size = 1, length_f = 33, capacity = 64\<rparr>"
  let ?b1 = "\<lparr>data = Block (Some 7 # Some 8 # replicate 31 (Some 9)),
                      item_size = 1, length_f = 33, capacity = 33\<rparr>"
  let ?c1 = "\<lparr>data = Block (Some 9 # replicate 32 (Some 7) @ replicate 31 None),
                      item_size = 1, length_f = 33, capacity = 64\<rparr>"
  let ?e1 = "\<lparr>data = Block (Some 7 # Some 8 # replicate 31 None),
                  item_size = 1, length_f = 2, capacity = 33\<rparr>"
  let ?g1 = "\<lparr>data = Block (replicate 32 (Some 7) @ replicate 32 None),
                  item_size = 1, length_f = 32, capacity = 64\<rparr>"
  let ?h = "\<lparr>data = Block [], item_size = 0, length_f = 0, capacity = 9223372036854775808\<rparr>"
  have a: "cu_array_append True (Some ?full) (Some [Some 9]) = Inr (0, Some ?a1)"
    by (simp add: cu_array_append_def cu_array_grow_def cu_realloc_def run_defs)
  have b: "cu_array_extend True (Some ?two) (Some (replicate 31 (Some 9))) 31 = Inr (0, Some ?b1)"
    by (simp add: cu_array_extend_def cu_array_reserve_def cu_realloc_def run_defs)
  have c: "cu_array_insert True (Some ?full) (Some [Some 9]) 0 = Inr (0, Some ?c1)"
    by (simp add: cu_array_insert_def cu_array_grow_def cu_realloc_def run_defs)
  have d: "cu_array_remove_at (Some ?two) 0 = Inr (0, Some (uchar_array [8]))"
    by (simp add: cu_array_remove_at_def run_defs)
  have e: "cu_array_reserve True (Some ?two) 33 = Inr (0, Some ?e1)"
    by (simp add: cu_array_reserve_def cu_realloc_def run_defs)
  have f: "cu_array_clear (Some ?two) = (0, Some (?two\<lparr>length_f := 0\<rparr>))"
    by (simp add: cu_array_clear_def)
  have g: "cu_array_grow True (Some ?full) = Inr (0, Some ?g1)"
    by (simp add: cu_array_grow_def cu_realloc_def run_defs)
  have h: "cu_array_grow True (Some ?h) = Inr (1, Some ?h)"
    by (simp add: cu_array_grow_def)
  have i: "length_f ?two \<le> capacity ?two"
    by (simp add: run_defs)
  from capacity_not_below_length
      [of True ?full "Some [Some 9]" ?a1
          True ?two "Some (replicate 31 (Some 9))" 31 ?b1
          True ?full "Some [Some 9]" 0 ?c1
          ?two 0 "uchar_array [8]"
          ?two True 33 ?e1
          ?two "?two\<lparr>length_f := 0\<rparr>"
          True ?full ?g1
          ?h True]
    a b c d e f g h i
  show ?thesis by (simp add: run_defs)
qed

subsection \<open>Lifecycle\<close>

lemma init_initialized:
  assumes "unat isz * 32 < 2 ^ 64"
    and "cu_array_init heap_ok (Some zero_array) isz = (0, Some a)"
  shows "initialized a \<and> item_size a = isz \<and> length_f a = 0 \<and> contents a = []"
proof -
  have "unat isz * unat (32 :: size_t) < 2 ^ LENGTH(64)" using assms(1) by simp
  then have "unat (isz * 32) = unat isz * unat (32 :: size_t)" by (simp only: unat_mult_lem)
  then have "unat (isz * 32) = unat isz * 32" by simp
  moreover from assms(2) have "heap_ok"
    and "a = \<lparr>data = Block (replicate (unat (isz * 32)) None), item_size = isz,
              length_f = 0, capacity = 32\<rparr>"
    by (auto simp: cu_array_init_def zero_array_def cu_malloc_def CU_ARRAY_DEFAULT_SIZE_def
        Let_def split: if_splits)
  ultimately show ?thesis
    using assms(1) by (simp add: initialized_def contents_def)
qed

text \<open>
  C8. With a successful allocation \<open>cu_array_init\<close> turns the zero state into an array
  of capacity \<open>CU_ARRAY_DEFAULT_SIZE\<close>, which is 32, and length 0. \<open>cu_array_deinit\<close>
  turns an array with an allocated buffer and a capacity, as every initialized array is,
  into the zero state: no buffer, length and capacity 0. \<open>cu_array_init\<close> returns 1 and
  changes nothing where there is a buffer or a capacity already, and \<open>cu_array_deinit\<close>
  returns 1 on the zero state. The one state left, a capacity with a buffer that has been
  deallocated, is not that of an initialized array: there \<open>cu_array_deinit\<close> deallocates
  a second time.
\<close>

theorem init_deinit_round_trip:
  "cu_array_init True (Some zero_array) isz
     = (0, Some \<lparr>data = Block (replicate (unat (isz * 32)) None), item_size = isz,
                  length_f = 0, capacity = CU_ARRAY_DEFAULT_SIZE\<rparr>)
   \<and> CU_ARRAY_DEFAULT_SIZE = 32
   \<and> (data a = Block blk \<and> capacity a \<noteq> 0 \<longrightarrow>
        cu_array_deinit (Some a) = Inr (0, Some zero_array))
   \<and> (data c = Dangling \<and> capacity c \<noteq> 0 \<longrightarrow> cu_array_deinit (Some c) = Inl UseAfterFree)
   \<and> data zero_array = Null \<and> length_f zero_array = 0 \<and> capacity zero_array = 0
   \<and> (data b \<noteq> Null \<or> capacity b \<noteq> 0 \<longrightarrow> cu_array_init heap_ok (Some b) isz2 = (1, Some b))
   \<and> cu_array_deinit (Some zero_array) = Inr (1, Some zero_array)"
  by (auto simp: cu_array_init_def cu_array_deinit_def cu_free_def zero_array_def cu_malloc_def
      CU_ARRAY_DEFAULT_SIZE_def)

theorem init_deinit_round_trip_witness:
  "cu_array_init True (Some zero_array) 1 = (0, Some (uchar_array []))
   \<and> data (uchar_array []) = Block (replicate 32 None) \<and> capacity (uchar_array []) \<noteq> 0
   \<and> cu_array_deinit (Some (uchar_array [])) = Inr (0, Some zero_array)
   \<and> cu_array_deinit (Some ((uchar_array [])\<lparr>data := Dangling\<rparr>)) = Inl UseAfterFree
   \<and> cu_array_init True (Some (uchar_array [])) 1 = (1, Some (uchar_array []))
   \<and> cu_array_deinit (Some zero_array) = Inr (1, Some zero_array)"
  using init_deinit_round_trip
    [of 1 "uchar_array []" "replicate 32 None" "(uchar_array [])\<lparr>data := Dangling\<rparr>"
        "uchar_array []" True 1]
  by (simp add: uchar_array_def CU_ARRAY_DEFAULT_SIZE_def)

text \<open>
  C9 says that every operation other than Clear rejects the zero state. That part does
  not hold: \<open>cu_array_clear\<close> is not the only function that accepts the zero state,
  \<open>cu_array_init\<close> accepts it too (it is the state it requires).
\<close>

theorem init_accepts_zero_state:
  "fst (cu_array_clear (Some zero_array)) = 0
   \<and> fst (cu_array_init True (Some zero_array) 1) = 0"
  by (simp add: cu_array_clear_def cu_array_init_def zero_array_def cu_malloc_def)

text \<open>
  C9, amended. \<open>cu_array_clear\<close> returns 0 for every array that is not \<open>NULL\<close>, whatever
  its state, and changes the field \<open>length\<close> only, to 0. Every other function but
  \<open>cu_array_init\<close> returns 1 (\<open>cu_array_at\<close>: \<open>NULL\<close>) on the zero state and leaves it.
\<close>

theorem clear_accepts_every_state:
  "cu_array_clear (Some a) = (0, Some (a\<lparr>length_f := 0\<rparr>))
   \<and> cu_array_deinit (Some zero_array) = Inr (1, Some zero_array)
   \<and> cu_array_at (Some zero_array) pos = None
   \<and> cu_array_append ok1 (Some zero_array) item = Inr (1, Some zero_array)
   \<and> cu_array_extend ok2 (Some zero_array) items n = Inr (1, Some zero_array)
   \<and> cu_array_insert ok3 (Some zero_array) item3 ipos = Inr (1, Some zero_array)
   \<and> cu_array_reserve ok4 (Some zero_array) m = Inr (1, Some zero_array)
   \<and> cu_array_remove_at (Some zero_array) rpos = Inr (1, Some zero_array)
   \<and> cu_array_qsort (Some zero_array) compare = Some (Inr (1, Some zero_array))
   \<and> cu_array_grow ok5 (Some zero_array) = Inr (1, Some zero_array)"
  by (simp add: cu_array_clear_def cu_array_deinit_def cu_array_at_def cu_array_append_def
      cu_array_extend_def cu_array_insert_def cu_array_reserve_def cu_array_remove_at_def
      cu_array_qsort_def cu_array_grow_def zero_array_def)

subsection \<open>Insertion and removal at the end\<close>

lemma initialized_two_items: "initialized (uchar_array [7, 8])"
  by (simp add: initialized_def uchar_array_def)

text \<open>
  C2. The property: for every position up to \<open>length\<close> Insert succeeds, the new item is
  at that position, the items before it stay and the items from it on move up by one. The
  code does not have it. Inserting at position \<open>length\<close> or \<open>length - 1\<close> of an
  initialized array copies through the \<open>NULL\<close> that \<open>cu_array_at\<close> returns for positions
  from \<open>length\<close> on; only positions below \<open>length - 1\<close> are served. The theorem runs
  the three positions of an array of two items.
\<close>

theorem insert_at_end_faults:
  "initialized (uchar_array [7, 8])
   \<and> cu_array_insert True (Some (uchar_array [7, 8])) (Some [Some 9]) 2 = Inl NullDeref
   \<and> cu_array_insert True (Some (uchar_array [7, 8])) (Some [Some 9]) 1 = Inl NullDeref
   \<and> cu_array_insert True (Some (uchar_array [7, 8])) (Some [Some 9]) 0
       = Inr (0, Some (uchar_array [9, 7, 8]))"
  by (simp add: initialized_def cu_array_insert_def run_defs)

text \<open>
  C3. The property: for every position below \<open>length\<close> RemoveAt succeeds, the items
  before the position stay and the items after it move down by one. The code does not
  have it. Removing the last item of an initialized array reads \<open>item_size\<close> units
  through the \<open>NULL\<close> that \<open>cu_array_at\<close> returns for position \<open>length\<close>; and on a full
  array every removal reads one item past the block. The theorem runs both positions of
  an array of two items and position 0 of a full array.
\<close>

theorem remove_last_faults:
  "initialized (uchar_array [7, 8])
   \<and> cu_array_remove_at (Some (uchar_array [7, 8])) 1 = Inl NullDeref
   \<and> cu_array_remove_at (Some (uchar_array [7, 8])) 0 = Inr (0, Some (uchar_array [8]))
   \<and> initialized (uchar_array (replicate 32 7))
   \<and> cu_array_remove_at (Some (uchar_array (replicate 32 7))) 0 = Inl OutOfBounds"
  by (simp add: initialized_def cu_array_remove_at_def run_defs)

subsection \<open>Sorting\<close>

lemma qsort_internal_run:
  "cu_array_qsort_internal compare_uchar [Some 2, Some 2, Some 3, Some 1, Some 0] 1 5
     = Some (Inr [Some 0, Some 2, Some 2, Some 1, Some 3])"
  by code_simp

text \<open>
  C1. The property: after a successful Sort with a comparator consistent with a total
  order the array is sorted and holds the items it held before. The code does not sort
  every array. The pivot is a pointer into the array: the first swap below moves the
  middle item, the rest of the partition compares with the new value behind the pointer,
  and the two parts it hands to the recursive calls are not separated by any value. For
  the \<open>unsigned char\<close> items 2, 2, 3, 1, 0 the call returns 0 and leaves 0, 2, 2, 1, 3:
  the items at positions 2 and 3 are out of order.
\<close>

theorem qsort_leaves_unsorted:
  "initialized (uchar_array [2, 2, 3, 1, 0])
   \<and> cu_array_qsort (Some (uchar_array [2, 2, 3, 1, 0])) compare_uchar
       = Some (Inr (0, Some (uchar_array [0, 2, 2, 1, 3])))
   \<and> item_of (uchar_array [0, 2, 2, 1, 3]) 2 = Some [Some 2]
   \<and> item_of (uchar_array [0, 2, 2, 1, 3]) 3 = Some [Some 1]
   \<and> compare_uchar [Some 2] [Some 1] > 0"
  using qsort_internal_run
  by (simp add: initialized_def cu_array_qsort_def run_defs compare_uchar_def uchar_value_def)

subsection \<open>The run of the program of main.c\<close>

text \<open>
  The program of \<open>main.c\<close> appends 0 to 14, extends by 1 to 20, inserts 99 at
  position 15 and -1 at position 0, removes the item at position 7 and sorts. Here it
  runs on the model with \<open>unsigned char\<close> items, each value raised by 1 so that -1
  becomes 0: the order of the values, all the comparator is asked for, is the same. The
  array is built as expected, and the sort returns 0 and leaves it unsorted: 6 at
  position 9 stands before 5 at position 10.
\<close>

lemma demo_appends:
  "append_all (Some (uchar_array []))
     (map (\<lambda>x. (True, Some [Some x])) [1, 2, 3, 4, 5, 6, 7, 8, 9, 10, 11, 12, 13, 14, 15])
   = Inr (0, Some (uchar_array [1, 2, 3, 4, 5, 6, 7, 8, 9, 10, 11, 12, 13, 14, 15]))"
  by (simp add: cu_array_append_def run_defs)

lemma demo_extend:
  "cu_array_extend True
     (Some (uchar_array [1, 2, 3, 4, 5, 6, 7, 8, 9, 10, 11, 12, 13, 14, 15]))
     (Some (map Some [2, 3, 4, 5, 6, 7, 8, 9, 10, 11, 12, 13, 14, 15, 16, 17, 18, 19, 20, 21]))
     20
   = Inr (0, Some \<lparr>data = Block (map Some
       [1, 2, 3, 4, 5, 6, 7, 8, 9, 10, 11, 12, 13, 14, 15,
        2, 3, 4, 5, 6, 7, 8, 9, 10, 11, 12, 13, 14, 15, 16, 17, 18, 19, 20, 21]),
       item_size = 1, length_f = 35, capacity = 35\<rparr>)"
  by (simp add: cu_array_extend_def cu_array_reserve_def cu_realloc_def run_defs)

lemma demo_insert_99:
  "cu_array_insert True
     (Some \<lparr>data = Block (map Some
       [1, 2, 3, 4, 5, 6, 7, 8, 9, 10, 11, 12, 13, 14, 15,
        2, 3, 4, 5, 6, 7, 8, 9, 10, 11, 12, 13, 14, 15, 16, 17, 18, 19, 20, 21]),
       item_size = 1, length_f = 35, capacity = 35\<rparr>)
     (Some [Some 100]) 15
   = Inr (0, Some (demo_array
       [1, 2, 3, 4, 5, 6, 7, 8, 9, 10, 11, 12, 13, 14, 15, 100,
        2, 3, 4, 5, 6, 7, 8, 9, 10, 11, 12, 13, 14, 15, 16, 17, 18, 19, 20, 21]))"
  by (simp add: cu_array_insert_def cu_array_grow_def cu_realloc_def demo_array_def run_defs)

lemma demo_insert_first:
  "cu_array_insert True
     (Some (demo_array
       [1, 2, 3, 4, 5, 6, 7, 8, 9, 10, 11, 12, 13, 14, 15, 100,
        2, 3, 4, 5, 6, 7, 8, 9, 10, 11, 12, 13, 14, 15, 16, 17, 18, 19, 20, 21]))
     (Some [Some 0]) 0
   = Inr (0, Some (demo_array
       [0, 1, 2, 3, 4, 5, 6, 7, 8, 9, 10, 11, 12, 13, 14, 15, 100,
        2, 3, 4, 5, 6, 7, 8, 9, 10, 11, 12, 13, 14, 15, 16, 17, 18, 19, 20, 21]))"
  by (simp add: cu_array_insert_def cu_array_grow_def cu_realloc_def demo_array_def run_defs)

lemma demo_remove:
  "cu_array_remove_at
     (Some (demo_array
       [0, 1, 2, 3, 4, 5, 6, 7, 8, 9, 10, 11, 12, 13, 14, 15, 100,
        2, 3, 4, 5, 6, 7, 8, 9, 10, 11, 12, 13, 14, 15, 16, 17, 18, 19, 20, 21])) 7
   = Inr (0, Some (demo_array
       [0, 1, 2, 3, 4, 5, 6, 8, 9, 10, 11, 12, 13, 14, 15, 100,
        2, 3, 4, 5, 6, 7, 8, 9, 10, 11, 12, 13, 14, 15, 16, 17, 18, 19, 20, 21]))"
  by (simp add: cu_array_remove_at_def demo_array_def run_defs)

lemma demo_qsort_internal:
  "cu_array_qsort_internal compare_uchar
     [Some 0, Some 1, Some 2, Some 3, Some 4, Some 5, Some 6, Some 8, Some 9, Some 10,
      Some 11, Some 12, Some 13, Some 14, Some 15, Some 100, Some 2, Some 3, Some 4,
      Some 5, Some 6, Some 7, Some 8, Some 9, Some 10, Some 11, Some 12, Some 13,
      Some 14, Some 15, Some 16, Some 17, Some 18, Some 19, Some 20, Some 21] 1 36
   = Some (Inr
     [Some 0, Some 1, Some 2, Some 2, Some 3, Some 3, Some 4, Some 4, Some 5, Some 6,
      Some 5, Some 6, Some 7, Some 8, Some 8, Some 9, Some 9, Some 10, Some 10, Some 11,
      Some 12, Some 13, Some 11, Some 14, Some 12, Some 13, Some 14, Some 15, Some 15,
      Some 16, Some 17, Some 18, Some 19, Some 20, Some 21, Some 100])"
  by code_simp

lemma demo_qsort:
  "cu_array_qsort
     (Some (demo_array
       [0, 1, 2, 3, 4, 5, 6, 8, 9, 10, 11, 12, 13, 14, 15, 100,
        2, 3, 4, 5, 6, 7, 8, 9, 10, 11, 12, 13, 14, 15, 16, 17, 18, 19, 20, 21]))
     compare_uchar
   = Some (Inr (0, Some (demo_array
       [0, 1, 2, 2, 3, 3, 4, 4, 5, 6, 5, 6, 7, 8, 8, 9, 9, 10, 10, 11, 12, 13, 11, 14,
        12, 13, 14, 15, 15, 16, 17, 18, 19, 20, 21, 100])))"
  "item_of (demo_array
       [0, 1, 2, 2, 3, 3, 4, 4, 5, 6, 5, 6, 7, 8, 8, 9, 9, 10, 10, 11, 12, 13, 11, 14,
        12, 13, 14, 15, 15, 16, 17, 18, 19, 20, 21, 100]) 9 = Some [Some 6]"
  "item_of (demo_array
       [0, 1, 2, 2, 3, 3, 4, 4, 5, 6, 5, 6, 7, 8, 8, 9, 9, 10, 10, 11, 12, 13, 11, 14,
        12, 13, 14, 15, 15, 16, 17, 18, 19, 20, 21, 100]) 10 = Some [Some 5]"
  using demo_qsort_internal by (simp_all add: cu_array_qsort_def demo_array_def run_defs)

subsection \<open>Items of a range\<close>

lemma size_write_at: "d + size xs \<le> size mem \<Longrightarrow> size (write_at mem d xs) = size mem"
  by (simp add: write_at_def)

lemma slice_write_same:
  "d + size xs \<le> size mem \<Longrightarrow> take (size xs) (drop d (write_at mem d xs)) = xs"
  by (simp add: write_at_def)

lemma slice_write_before:
  assumes "a + s \<le> d" and "d + size xs \<le> size mem"
  shows "take s (drop a (write_at mem d xs)) = take s (drop a mem)"
proof -
  have "take s (drop a (take d mem)) = take s (drop a mem)"
    using assms by (simp add: drop_take min_def)
  then show ?thesis using assms by (simp add: write_at_def)
qed

lemma slice_write_after:
  assumes "d + size xs \<le> a" and "d + size xs \<le> size mem"
  shows "drop a (write_at mem d xs) = drop a mem"
proof -
  obtain e where e: "a = d + size xs + e" using assms(1) le_Suc_ex by blast
  show ?thesis using assms(2) by (simp add: write_at_def e add.commute)
qed

lemma chunk_before:
  fixes s :: nat
  assumes "k' < k"
  shows "s * k' + s \<le> s * k"
proof -
  from assms have "Suc k' \<le> k" by simp
  then have "s * Suc k' \<le> s * k" by (rule mult_le_mono2)
  then show ?thesis by simp
qed

lemma size_nth_item: "s * k + s \<le> size mem \<Longrightarrow> size (nth_item s mem k) = s"
  by (simp add: nth_item_def)

lemma nth_item_write_same:
  assumes "size xs = s" and "s * k + s \<le> size mem"
  shows "nth_item s (write_at mem (s * k) xs) k = xs"
  using slice_write_same[of "s * k" xs mem] assms by (simp add: nth_item_def)

lemma nth_item_write_other:
  assumes "size xs = s" and "k' \<noteq> k" and "s * k + s \<le> size mem"
  shows "nth_item s (write_at mem (s * k) xs) k' = nth_item s mem k'"
proof (cases "k' < k")
  case True
  then have "s * k' + s \<le> s * k" by (rule chunk_before)
  then show ?thesis
    using slice_write_before[of "s * k'" s "s * k" xs mem] assms by (simp add: nth_item_def)
next
  case False
  with assms(2) have "k < k'" by simp
  then have "s * k + s \<le> s * k'" by (rule chunk_before)
  then show ?thesis
    using slice_write_after[of "s * k" xs "s * k'" mem] assms by (simp add: nth_item_def)
qed

lemma memcpy_write:
  assumes "d + n \<le> size b" and "n \<le> size src"
  shows "cu_memcpy b (Some d) (Some src) n = Inr (write_at b d (take n src))"
  using assms by (simp add: cu_memcpy_def write_at_def min_def)

subsection \<open>The scans of the partition\<close>

lemma offset_no_wrap:
  fixes sz k len :: size_t
  assumes "unat sz * unat len < 2 ^ 64" and "unat k \<le> unat len"
  shows "unat (sz * k) = unat sz * unat k"
proof -
  have "unat sz * unat k \<le> unat sz * unat len" using assms(2) by (rule mult_le_mono2)
  then have "unat sz * unat k < 2 ^ 64" using assms(1) by (rule le_less_trans)
  moreover have "(2::nat) ^ LENGTH(64) = 2 ^ 64" by simp
  ultimately have "unat sz * unat k < 2 ^ LENGTH(64)" by (simp only:)
  then show ?thesis by (simp only: unat_mult_lem)
qed

lemma unat_succ:
  fixes i :: size_t
  assumes "unat i < k" and "k < 2 ^ 64"
  shows "unat (i + 1) = unat i + 1"
proof -
  from assms have "unat i + unat (1 :: size_t) < 2 ^ LENGTH(64)" by simp
  then have "unat (i + 1) = unat i + unat (1 :: size_t)" by (simp only: unat_add_lem)
  then show ?thesis by simp
qed

lemma unat_pred:
  fixes j :: size_t
  assumes "k < unat j"
  shows "unat (j - 1) = unat j - 1"
proof -
  from assms have "j \<noteq> 0" by auto
  then show ?thesis by (rule unat_minus_one)
qed

lemma item_at_in_range:
  assumes "range_ok mem sz len" and "k < unat len"
  shows "item_at mem sz (unat sz * k) = Inr (nth_item (unat sz) mem k)"
proof -
  have "unat sz * k + unat sz \<le> unat sz * unat len" using assms(2) by (rule chunk_before)
  then show ?thesis using assms(1) by (simp add: item_at_def nth_item_def range_ok_def)
qed

lemma compare_at_in_range:
  assumes "range_ok mem sz len" and "p < unat len" and "q < unat len"
  shows "compare_at compare mem sz (unat sz * p) (unat sz * q)
           = Inr (compare (nth_item (unat sz) mem p) (nth_item (unat sz) mem q))"
  using assms by (simp add: compare_at_def item_at_in_range)

lemma scan_up_stops:
  assumes "range_ok mem sz len" and "m < unat len"
    and "unat i \<le> ku" and "ku < unat len"
    and "\<not> compare (nth_item (unat sz) mem ku) (nth_item (unat sz) mem m) < 0"
  shows "\<exists>i1. qsort_scan_up compare mem sz (unat sz * m) i = Some (Inr i1)
           \<and> unat i \<le> unat i1 \<and> unat i1 \<le> ku
           \<and> \<not> compare (nth_item (unat sz) mem (unat i1)) (nth_item (unat sz) mem m) < 0"
  using assms(3)
proof (induction d \<equiv> "ku - unat i" arbitrary: i)
  case 0
  then have eq: "unat i = ku" by simp
  have off: "unat (sz * i) = unat sz * unat i"
    using assms(1,4) eq by (intro offset_no_wrap[of sz len]) (auto simp: range_ok_def)
  have "compare_at compare mem sz (unat (sz * i)) (unat sz * m)
          = Inr (compare (nth_item (unat sz) mem ku) (nth_item (unat sz) mem m))"
    unfolding off using assms(1,2,4) eq by (simp add: compare_at_in_range)
  then have "qsort_scan_up compare mem sz (unat sz * m) i = Some (Inr i)"
    using assms(5) by (subst qsort_scan_up.simps) simp
  then show ?case using assms(5) eq by auto
next
  case (Suc d)
  then have lt: "unat i < ku" by simp
  have len64: "unat len < 2 ^ 64" using unsigned_less[of len] by simp
  have off: "unat (sz * i) = unat sz * unat i"
    using assms(1,4) lt by (intro offset_no_wrap[of sz len]) (auto simp: range_ok_def)
  have cmp: "compare_at compare mem sz (unat (sz * i)) (unat sz * m)
          = Inr (compare (nth_item (unat sz) mem (unat i)) (nth_item (unat sz) mem m))"
    unfolding off using assms(1,2,4) lt by (simp add: compare_at_in_range)
  show ?case
  proof (cases "compare (nth_item (unat sz) mem (unat i)) (nth_item (unat sz) mem m) < 0")
    case True
    have succ: "unat (i + 1) = unat i + 1"
      using lt assms(4) len64 by (intro unat_succ[of i ku]) auto
    have "d = ku - unat (i + 1)" using Suc.hyps(2) succ by simp
    moreover have "unat (i + 1) \<le> ku" using lt succ by simp
    ultimately obtain i1 where
      "qsort_scan_up compare mem sz (unat sz * m) (i + 1) = Some (Inr i1)"
      "unat (i + 1) \<le> unat i1" "unat i1 \<le> ku"
      "\<not> compare (nth_item (unat sz) mem (unat i1)) (nth_item (unat sz) mem m) < 0"
      using Suc.hyps(1)[of "i + 1"] by blast
    moreover have "qsort_scan_up compare mem sz (unat sz * m) i
        = qsort_scan_up compare mem sz (unat sz * m) (i + 1)"
      using cmp True by (subst qsort_scan_up.simps) simp
    ultimately show ?thesis using succ by auto
  next
    case False
    then have "qsort_scan_up compare mem sz (unat sz * m) i = Some (Inr i)"
      using cmp by (subst qsort_scan_up.simps) simp
    then show ?thesis using False lt by auto
  qed
qed

lemma scan_down_stops:
  assumes "range_ok mem sz len" and "m < unat len"
    and "kd \<le> unat j" and "unat j < unat len"
    and "\<not> compare (nth_item (unat sz) mem m) (nth_item (unat sz) mem kd) < 0"
  shows "\<exists>j1. qsort_scan_down compare mem sz (unat sz * m) j = Some (Inr j1)
           \<and> kd \<le> unat j1 \<and> unat j1 \<le> unat j
           \<and> \<not> compare (nth_item (unat sz) mem m) (nth_item (unat sz) mem (unat j1)) < 0"
  using assms(3,4)
proof (induction d \<equiv> "unat j - kd" arbitrary: j)
  case 0
  then have eq: "unat j = kd" by simp
  have off: "unat (sz * j) = unat sz * unat j"
    using assms(1) "0.prems" by (intro offset_no_wrap[of sz len]) (auto simp: range_ok_def)
  have "compare_at compare mem sz (unat sz * m) (unat (sz * j))
          = Inr (compare (nth_item (unat sz) mem m) (nth_item (unat sz) mem kd))"
    unfolding off using assms(1,2) "0.prems" eq by (simp add: compare_at_in_range)
  then have "qsort_scan_down compare mem sz (unat sz * m) j = Some (Inr j)"
    using assms(5) by (subst qsort_scan_down.simps) simp
  then show ?case using assms(5) eq by auto
next
  case (Suc d)
  then have lt: "kd < unat j" by simp
  have off: "unat (sz * j) = unat sz * unat j"
    using assms(1) Suc.prems by (intro offset_no_wrap[of sz len]) (auto simp: range_ok_def)
  have cmp: "compare_at compare mem sz (unat sz * m) (unat (sz * j))
          = Inr (compare (nth_item (unat sz) mem m) (nth_item (unat sz) mem (unat j)))"
    unfolding off using assms(1,2) Suc.prems by (simp add: compare_at_in_range)
  show ?case
  proof (cases "compare (nth_item (unat sz) mem m) (nth_item (unat sz) mem (unat j)) < 0")
    case True
    have pred: "unat (j - 1) = unat j - 1" using lt by (rule unat_pred)
    have "d = unat (j - 1) - kd" using Suc.hyps(2) pred by simp
    moreover have "kd \<le> unat (j - 1)" using lt pred by simp
    moreover have "unat (j - 1) < unat len" using Suc.prems pred by simp
    ultimately obtain j1 where
      "qsort_scan_down compare mem sz (unat sz * m) (j - 1) = Some (Inr j1)"
      "kd \<le> unat j1" "unat j1 \<le> unat (j - 1)"
      "\<not> compare (nth_item (unat sz) mem m) (nth_item (unat sz) mem (unat j1)) < 0"
      using Suc.hyps(1)[of "j - 1"] by blast
    moreover have "qsort_scan_down compare mem sz (unat sz * m) j
        = qsort_scan_down compare mem sz (unat sz * m) (j - 1)"
      using cmp True by (subst qsort_scan_down.simps) simp
    ultimately show ?thesis using pred by auto
  next
    case False
    then have "qsort_scan_down compare mem sz (unat sz * m) j = Some (Inr j)"
      using cmp by (subst qsort_scan_down.simps) simp
    then show ?thesis using False lt by auto
  qed
qed

subsection \<open>The exchange of two items\<close>

lemma qsort_swap_too_large:
  "128 < unat sz \<Longrightarrow> qsort_swap mem sz i j = Inl ScratchOverflow"
  by (simp add: qsort_swap_def CU_ARRAY_MAX_ITEM_SIZE_def)

lemma qsort_swap_items:
  assumes ok: "range_ok mem sz len" and ij: "unat i < unat j" and jn: "unat j < unat len"
    and small: "unat sz \<le> 128"
  shows "\<exists>mem1. qsort_swap mem sz i j = Inr mem1 \<and> size mem1 = size mem
           \<and> nth_item (unat sz) mem1 (unat i) = nth_item (unat sz) mem (unat j)
           \<and> nth_item (unat sz) mem1 (unat j) = nth_item (unat sz) mem (unat i)
           \<and> (\<forall>k. k \<noteq> unat i \<and> k \<noteq> unat j \<longrightarrow>
                 nth_item (unat sz) mem1 k = nth_item (unat sz) mem k)"
proof -
  let ?s = "unat sz"
  let ?R = "replicate (unat CU_ARRAY_MAX_ITEM_SIZE) None :: block"
  let ?xi = "nth_item ?s mem (unat i)"
  let ?xj = "nth_item ?s mem (unat j)"
  let ?m1 = "write_at mem (?s * unat i) ?xj"
  let ?m2 = "write_at ?m1 (?s * unat j) ?xi"
  have sm: "size mem = ?s * unat len" and lt64: "?s * unat len < 2 ^ 64"
    using ok by (auto simp: range_ok_def)
  have oi: "unat (sz * i) = ?s * unat i"
    using lt64 ij jn by (intro offset_no_wrap[of sz len]) auto
  have oj: "unat (sz * j) = ?s * unat j"
    using lt64 jn by (intro offset_no_wrap[of sz len]) auto
  have bi: "?s * unat i + ?s \<le> size mem"
    unfolding sm using ij jn by (intro chunk_before) simp
  have bj: "?s * unat j + ?s \<le> size mem"
    unfolding sm using jn by (intro chunk_before) simp
  have si: "size ?xi = ?s" using bi by (rule size_nth_item)
  have sj: "size ?xj = ?s" using bj by (rule size_nth_item)
  have s1: "size ?m1 = size mem" using bi sj by (simp add: size_write_at)
  have s2: "size ?m2 = size mem" using bj si s1 by (simp add: size_write_at)
  have R: "size ?R = 128" by (simp add: CU_ARRAY_MAX_ITEM_SIZE_def)
  have c1: "cu_memcpy ?R (Some 0) (Some (drop (?s * unat i) mem)) ?s = Inr (write_at ?R 0 ?xi)"
    using memcpy_write[of 0 ?s ?R "drop (?s * unat i) mem"] small bi R
    by (simp add: nth_item_def)
  have c2: "cu_memmove mem (Some (?s * unat i)) (Some (?s * unat j)) ?s = Inr ?m1"
    using memcpy_write[of "?s * unat i" ?s mem "drop (?s * unat j) mem"] bi bj
    by (simp add: cu_memmove_def nth_item_def)
  have tb: "take ?s (write_at ?R 0 ?xi) = ?xi"
    using slice_write_same[of 0 ?xi ?R] si small R by simp
  have c3: "cu_memcpy ?m1 (Some (?s * unat j)) (Some (write_at ?R 0 ?xi)) ?s = Inr ?m2"
    using memcpy_write[of "?s * unat j" ?s ?m1 "write_at ?R 0 ?xi"] bj s1 si small R tb
    by (simp add: size_write_at)
  have run: "qsort_swap mem sz i j = Inr ?m2"
    using small c1 c2 c3 by (simp add: qsort_swap_def oi oj CU_ARRAY_MAX_ITEM_SIZE_def)
  have ne: "unat i \<noteq> unat j" using ij by simp
  have at_j: "nth_item ?s ?m2 (unat j) = ?xi"
    using si bj s1 by (intro nth_item_write_same) simp_all
  have "nth_item ?s ?m2 (unat i) = nth_item ?s ?m1 (unat i)"
    using si ne bj s1 by (intro nth_item_write_other) simp_all
  also have "\<dots> = ?xj" using sj bi by (intro nth_item_write_same) simp_all
  finally have at_i: "nth_item ?s ?m2 (unat i) = ?xj" .
  have other: "nth_item ?s ?m2 k = nth_item ?s mem k" if "k \<noteq> unat i \<and> k \<noteq> unat j" for k
  proof -
    have "nth_item ?s ?m2 k = nth_item ?s ?m1 k"
      using si that bj s1 by (intro nth_item_write_other) simp_all
    also have "\<dots> = nth_item ?s mem k"
      using sj that bi by (intro nth_item_write_other) simp_all
    finally show ?thesis .
  qed
  show ?thesis using run s2 at_i at_j other by blast
qed

subsection \<open>The partition loop\<close>

lemma partition_returns:
  assumes irr: "\<And>x. \<not> compare x x < 0"
    and m: "m < unat len"
  shows "range_ok mem sz len \<Longrightarrow> unat j < unat len \<Longrightarrow>
     unat i \<le> ku \<Longrightarrow> ku < unat len \<Longrightarrow>
     \<not> compare (nth_item (unat sz) mem ku) (nth_item (unat sz) mem m) < 0 \<Longrightarrow>
     kd \<le> unat j \<Longrightarrow>
     \<not> compare (nth_item (unat sz) mem m) (nth_item (unat sz) mem kd) < 0 \<Longrightarrow>
     1 \<le> unat i \<or> 1 \<le> kd \<Longrightarrow>
     \<exists>r. qsort_partition compare sz (unat sz * m) mem i j = Some r
       \<and> ((r = Inl ScratchOverflow \<and> 128 < unat sz)
          \<or> (\<exists>mem1 i1. r = Inr (mem1, i1) \<and> range_ok mem1 sz len
                \<and> 1 \<le> unat i1 \<and> unat i1 < unat len))"
proof (induction d \<equiv> "unat len - unat i" arbitrary: mem i j ku kd rule: less_induct)
  case less
  let ?s = "unat sz"
  let ?it = "nth_item ?s mem"
  have len64: "unat len < 2 ^ 64" using unsigned_less[of len] by simp
  obtain i1 where i1: "qsort_scan_up compare mem sz (?s * m) i = Some (Inr i1)"
      "unat i \<le> unat i1" "unat i1 \<le> ku" "\<not> compare (?it (unat i1)) (?it m) < 0"
    using scan_up_stops[where compare = compare, OF less.prems(1) m less.prems(3,4,5)] by blast
  obtain j1 where j1: "qsort_scan_down compare mem sz (?s * m) j = Some (Inr j1)"
      "kd \<le> unat j1" "unat j1 \<le> unat j" "\<not> compare (?it m) (?it (unat j1)) < 0"
    using scan_down_stops[where compare = compare, OF less.prems(1) m less.prems(6,2,7)] by blast
  show ?case
  proof (cases "j1 \<le> i1")
    case True
    then have "unat j1 \<le> unat i1" by (simp add: word_le_nat_alt)
    with less.prems(8) i1(2) j1(2) have "1 \<le> unat i1" by linarith
    moreover have "unat i1 < unat len" using i1(3) less.prems(4) by simp
    moreover have "qsort_partition compare sz (?s * m) mem i j = Some (Inr (mem, i1))"
      using i1(1) j1(1) True by (subst qsort_partition.simps) simp
    ultimately show ?thesis using less.prems(1) by blast
  next
    case False
    then have ij: "unat i1 < unat j1" by (simp add: word_le_nat_alt)
    have jn: "unat j1 < unat len" using j1(3) less.prems(2) by simp
    show ?thesis
    proof (cases "128 < ?s")
      case True
      then have "qsort_partition compare sz (?s * m) mem i j = Some (Inl ScratchOverflow)"
        using i1(1) j1(1) \<open>\<not> j1 \<le> i1\<close>
        by (subst qsort_partition.simps) (simp add: qsort_swap_too_large)
      then show ?thesis using True by blast
    next
      case False
      then have small: "?s \<le> 128" by simp
      obtain mem1 where sw: "qsort_swap mem sz i1 j1 = Inr mem1" "size mem1 = size mem"
          "nth_item ?s mem1 (unat i1) = ?it (unat j1)"
          "nth_item ?s mem1 (unat j1) = ?it (unat i1)"
          "\<And>k. k \<noteq> unat i1 \<and> k \<noteq> unat j1 \<Longrightarrow> nth_item ?s mem1 k = ?it k"
        using qsort_swap_items[OF less.prems(1) ij jn small] by blast
      have ok1: "range_ok mem1 sz len" using less.prems(1) sw(2) by (simp add: range_ok_def)
      have succ: "unat (i1 + 1) = unat i1 + 1"
        using ij jn len64 by (intro unat_succ[of i1 "unat j1"]) auto
      have pred: "unat (j1 - 1) = unat j1 - 1" using ij by (rule unat_pred)
      have pm: "nth_item ?s mem1 m =
          (if m = unat i1 then ?it (unat j1) else if m = unat j1 then ?it (unat i1) else ?it m)"
        using sw(3,4,5) by auto
      have up: "\<not> compare (nth_item ?s mem1 (unat j1)) (nth_item ?s mem1 m) < 0"
        unfolding pm sw(4) using i1(4) j1(4) irr by auto
      have down: "\<not> compare (nth_item ?s mem1 m) (nth_item ?s mem1 (unat i1)) < 0"
        unfolding pm sw(3) using i1(4) j1(4) irr by auto
      have "\<exists>r. qsort_partition compare sz (?s * m) mem1 (i1 + 1) (j1 - 1) = Some r
         \<and> ((r = Inl ScratchOverflow \<and> 128 < ?s)
            \<or> (\<exists>mem2 i2. r = Inr (mem2, i2) \<and> range_ok mem2 sz len
                  \<and> 1 \<le> unat i2 \<and> unat i2 < unat len))"
      proof (rule less.hyps[of "i1 + 1" mem1 "j1 - 1" "unat j1" "unat i1"])
        show "unat len - unat (i1 + 1) < unat len - unat i"
          using succ i1(2) ij jn by simp
        show "range_ok mem1 sz len" by (rule ok1)
        show "unat (j1 - 1) < unat len" using pred jn by simp
        show "unat (i1 + 1) \<le> unat j1" using succ ij by simp
        show "unat j1 < unat len" by (rule jn)
        show "\<not> compare (nth_item ?s mem1 (unat j1)) (nth_item ?s mem1 m) < 0" by (rule up)
        show "unat i1 \<le> unat (j1 - 1)" using pred ij by simp
        show "\<not> compare (nth_item ?s mem1 m) (nth_item ?s mem1 (unat i1)) < 0" by (rule down)
        show "1 \<le> unat (i1 + 1) \<or> 1 \<le> unat i1" using succ by simp
      qed
      moreover have "qsort_partition compare sz (?s * m) mem i j
          = qsort_partition compare sz (?s * m) mem1 (i1 + 1) (j1 - 1)"
        using i1(1) j1(1) \<open>\<not> j1 \<le> i1\<close> sw(1) by (subst qsort_partition.simps) simp
      ultimately show ?thesis by simp
    qed
  qed
qed

subsection \<open>The recursion\<close>

lemma total_order_irreflexive: "total_order compare \<Longrightarrow> \<not> compare x x < 0"
  unfolding total_order_def by (metis less_asym)

lemma qsort_internal_returns:
  assumes irr: "\<And>x. \<not> compare x x < 0"
  shows "range_ok mem sz len \<Longrightarrow>
     \<exists>r. cu_array_qsort_internal compare mem sz len = Some r
       \<and> ((r = Inl ScratchOverflow \<and> 128 < unat sz)
          \<or> (\<exists>mem1. r = Inr mem1 \<and> size mem1 = size mem))"
proof (induction n \<equiv> "unat len" arbitrary: mem len rule: less_induct)
  case less
  let ?s = "unat sz"
  let ?n = "unat len"
  show ?case
  proof (cases "len < 2")
    case True
    then have "cu_array_qsort_internal compare mem sz len = Some (Inr mem)"
      by (subst cu_array_qsort_internal.simps) simp
    then show ?thesis by simp
  next
    case False
    then have n2: "2 \<le> ?n" by (simp add: word_less_nat_alt)
    let ?m = "?n div 2"
    have m: "?m < ?n" and m1: "1 \<le> ?m" using n2 by auto
    have sm: "size mem = ?s * ?n" and lt64: "?s * ?n < 2 ^ 64"
      using less.prems by (auto simp: range_ok_def)
    have half: "unat (len div 2) = ?m" by (simp add: unat_div)
    have pv: "unat (sz * (len div 2)) = ?s * ?m"
      using lt64 m half offset_no_wrap[of sz len "len div 2"] by simp
    have last: "unat (len - 1) = ?n - 1" using n2 by (intro unat_pred[of 0]) simp
    have "\<exists>r. qsort_partition compare sz (?s * ?m) mem 0 (len - 1) = Some r
       \<and> ((r = Inl ScratchOverflow \<and> 128 < ?s)
          \<or> (\<exists>mem1 i1. r = Inr (mem1, i1) \<and> range_ok mem1 sz len
                \<and> 1 \<le> unat i1 \<and> unat i1 < ?n))"
    proof (rule partition_returns[where compare = compare and ku = ?m and kd = ?m])
      show "\<not> compare x x < 0" for x by (rule irr)
      show "?m < ?n" by (rule m)
      show "range_ok mem sz len" by (rule less.prems)
      show "unat (len - 1) < ?n" using last n2 by simp
      show "unat (0 :: size_t) \<le> ?m" by simp
      show "?m < ?n" by (rule m)
      show "\<not> compare (nth_item ?s mem ?m) (nth_item ?s mem ?m) < 0" by (rule irr)
      show "?m \<le> unat (len - 1)" using last n2 by simp
      show "\<not> compare (nth_item ?s mem ?m) (nth_item ?s mem ?m) < 0" by (rule irr)
      show "1 \<le> unat (0 :: size_t) \<or> 1 \<le> ?m" using m1 by simp
    qed
    then obtain r where r: "qsort_partition compare sz (?s * ?m) mem 0 (len - 1) = Some r"
      and rcases: "(r = Inl ScratchOverflow \<and> 128 < ?s)
          \<or> (\<exists>mem1 i1. r = Inr (mem1, i1) \<and> range_ok mem1 sz len
                \<and> 1 \<le> unat i1 \<and> unat i1 < ?n)"
      by blast
    from rcases show ?thesis
    proof
      assume "r = Inl ScratchOverflow \<and> 128 < ?s"
      then have "cu_array_qsort_internal compare mem sz len = Some (Inl ScratchOverflow)"
        using r False pv by (subst cu_array_qsort_internal.simps) simp
      then show ?thesis using \<open>r = Inl ScratchOverflow \<and> 128 < ?s\<close> by simp
    next
      assume "\<exists>mem1 i1. r = Inr (mem1, i1) \<and> range_ok mem1 sz len
                \<and> 1 \<le> unat i1 \<and> unat i1 < ?n"
      then obtain mem1 i1 where p: "r = Inr (mem1, i1)" "range_ok mem1 sz len"
          "1 \<le> unat i1" "unat i1 < ?n"
        by blast
      let ?k = "unat i1"
      have s1: "size mem1 = ?s * ?n" using p(2) by (simp add: range_ok_def)
      have oi: "unat (sz * i1) = ?s * ?k"
        using lt64 p(4) by (intro offset_no_wrap[of sz len]) auto
      have le: "?s * ?k \<le> ?s * ?n" using p(4) by (intro mult_le_mono2) simp
      have rest: "unat (len - i1) = ?n - ?k"
        using p(4) by (intro unat_sub) (simp add: word_le_nat_alt)
      have lk64: "?s * ?k < 2 ^ 64" using le lt64 by (rule le_less_trans)
      have "size (take (?s * ?k) mem1) = ?s * ?k" using s1 le by simp
      then have lo_ok: "range_ok (take (?s * ?k) mem1) sz i1"
        using lk64 by (simp add: range_ok_def)
      have "size (drop (?s * ?k) mem1) = ?s * (?n - ?k)"
        using s1 by (simp add: diff_mult_distrib2)
      moreover have "?s * (?n - ?k) \<le> ?s * ?n" by (rule mult_le_mono2) simp
      then have "?s * (?n - ?k) < 2 ^ 64" using lt64 by (rule le_less_trans)
      ultimately have hi_ok: "range_ok (drop (?s * ?k) mem1) sz (len - i1)"
        unfolding range_ok_def rest by simp
      obtain r1 where r1: "cu_array_qsort_internal compare (take (?s * ?k) mem1) sz i1 = Some r1"
          "(r1 = Inl ScratchOverflow \<and> 128 < ?s)
            \<or> (\<exists>lo. r1 = Inr lo \<and> size lo = size (take (?s * ?k) mem1))"
        using less.hyps[of i1 "take (?s * ?k) mem1"] p(4) lo_ok by blast
      obtain r2 where r2:
          "cu_array_qsort_internal compare (drop (?s * ?k) mem1) sz (len - i1) = Some r2"
          "(r2 = Inl ScratchOverflow \<and> 128 < ?s)
            \<or> (\<exists>hi. r2 = Inr hi \<and> size hi = size (drop (?s * ?k) mem1))"
        using less.hyps[of "len - i1" "drop (?s * ?k) mem1"] p(3,4) rest hi_ok by force
      have unfold: "cu_array_qsort_internal compare mem sz len =
          (case r1 of Inl f \<Rightarrow> Some (Inl f)
           | Inr lo \<Rightarrow> (case r2 of Inl f \<Rightarrow> Some (Inl f) | Inr hi \<Rightarrow> Some (Inr (lo @ hi))))"
        using r p(1) False pv oi r1(1) r2(1)
        by (subst cu_array_qsort_internal.simps) (simp split: sum.splits)
      show ?thesis
        using r1(2) r2(2) s1 le unfolding unfold sm by (auto simp: min_def)
    qed
  qed
qed

lemma initialized_range:
  assumes "initialized a" and "data a = Block b"
  shows "range_ok (take (unat (item_size a) * unat (length_f a)) b) (item_size a) (length_f a)"
proof -
  let ?s = "unat (item_size a)"
  have sb: "size b = ?s * unat (capacity a)" and b64: "size b < 2 ^ 64"
    and le: "unat (length_f a) \<le> unat (capacity a)"
    using assms by (auto simp: initialized_def word_le_nat_alt)
  have "?s * unat (length_f a) \<le> ?s * unat (capacity a)" using le by (rule mult_le_mono2)
  then have "?s * unat (length_f a) \<le> size b" using sb by simp
  then show ?thesis using b64 by (simp add: range_ok_def)
qed

text \<open>
  C10. For an initialized array and a comparator consistent with a total order the call
  of \<open>cu_array_qsort\<close> returns: the recursion and its loops end, and no item outside the
  range a call was given is read or written, so none outside the first \<open>length\<close> items of
  the array. The call returns 0 and leaves an initialized array of the same
  \<open>item_size\<close>, \<open>length\<close> and \<open>capacity\<close>; the one other outcome is that an exchange
  of items larger than \<open>CU_ARRAY_MAX_ITEM_SIZE\<close> units overruns the static swap buffer,
  where the run stops.
\<close>

theorem qsort_terminates_in_bounds:
  assumes "total_order compare" and "initialized a"
  shows "\<exists>r. cu_array_qsort (Some a) compare = Some r
           \<and> r \<noteq> Inl OutOfBounds \<and> r \<noteq> Inl NullDeref
           \<and> ((r = Inl ScratchOverflow \<and> unat CU_ARRAY_MAX_ITEM_SIZE < unat (item_size a))
              \<or> (\<exists>a1. r = Inr (0, Some a1) \<and> initialized a1
                    \<and> item_size a1 = item_size a \<and> length_f a1 = length_f a
                    \<and> capacity a1 = capacity a))"
proof -
  from assms(2) obtain b where b: "data a = Block b" and cap: "capacity a \<noteq> 0"
    by (auto simp: initialized_def split: option.splits pointer.splits)
  let ?n = "unat (item_size a) * unat (length_f a)"
  have irr: "\<not> compare x x < 0" for x using assms(1) by (rule total_order_irreflexive)
  have ok: "range_ok (take ?n b) (item_size a) (length_f a)"
    using assms(2) b by (rule initialized_range)
  then have tn: "size (take ?n b) = ?n" by (simp add: range_ok_def)
  obtain r where r: "cu_array_qsort_internal compare (take ?n b) (item_size a) (length_f a) = Some r"
    and rc: "(r = Inl ScratchOverflow \<and> 128 < unat (item_size a))
          \<or> (\<exists>mem1. r = Inr mem1 \<and> size mem1 = size (take ?n b))"
    using qsort_internal_returns[where compare = compare, OF irr ok] by blast
  from rc show ?thesis
  proof
    assume "r = Inl ScratchOverflow \<and> 128 < unat (item_size a)"
    then show ?thesis
      using r b cap by (simp add: cu_array_qsort_def CU_ARRAY_MAX_ITEM_SIZE_def)
  next
    assume "\<exists>mem1. r = Inr mem1 \<and> size mem1 = size (take ?n b)"
    then obtain mem1 where m: "r = Inr mem1" "size mem1 = size (take ?n b)" by blast
    let ?a1 = "a\<lparr>data := Block (mem1 @ drop ?n b)\<rparr>"
    have "size (mem1 @ drop ?n b) = size b" using m(2) tn by simp
    then have "initialized ?a1" using assms(2) b by (simp add: initialized_def)
    moreover have "cu_array_qsort (Some a) compare = Some (Inr (0, Some ?a1))"
      using r b cap m(1) by (simp add: cu_array_qsort_def)
    ultimately show ?thesis by simp
  qed
qed

theorem qsort_terminates_in_bounds_witness:
  "total_order compare_uchar \<and> initialized (uchar_array [2, 2, 3, 1, 0])
   \<and> (\<exists>a1. cu_array_qsort (Some (uchar_array [2, 2, 3, 1, 0])) compare_uchar
               = Some (Inr (0, Some a1))
            \<and> initialized a1 \<and> length_f a1 = 5 \<and> capacity a1 = 32)"
proof -
  have t: "total_order compare_uchar" by (rule total_order_compare_uchar)
  have i: "initialized (uchar_array [2, 2, 3, 1, 0])"
    by (simp add: initialized_def uchar_array_def)
  have "unat (item_size (uchar_array [2, 2, 3, 1, 0])) \<le> unat CU_ARRAY_MAX_ITEM_SIZE"
    by (simp add: uchar_array_def CU_ARRAY_MAX_ITEM_SIZE_def)
  with qsort_terminates_in_bounds[OF t i] t i show ?thesis
    by (auto simp: uchar_array_def)
qed

subsection \<open>One append\<close>


lemma initialized_facts:
  assumes "initialized a"
  obtains b where "data a = Block b" and "capacity a \<noteq> 0"
    and "unat (length_f a) \<le> unat (capacity a)"
    and "size b = unat (item_size a) * unat (capacity a)"
    and "unat (item_size a) * unat (capacity a) < 2 ^ 64"
  using assms by (auto simp: initialized_def word_le_nat_alt split: option.splits pointer.splits)


lemma memcpy_result:
  assumes "cu_memcpy b (Some d) (Some src) n = Inr b1"
  shows "b1 = write_at b d (take n src) \<and> size b1 = size b
         \<and> (0 < n \<longrightarrow> d + n \<le> size b \<and> n \<le> size src)"
  using assms by (auto simp: cu_memcpy_def write_at_def min_def split: if_splits)

lemma grow_block:
  assumes "cu_array_grow heap_ok (Some a) = Inr (0, Some a1)" and "data a = Block b"
  shows "\<exists>tmp. data a1 = Block tmp \<and> size tmp = unat (item_size a * (capacity a * 2))
           \<and> (\<forall>k. k \<le> size b \<and> k \<le> size tmp \<longrightarrow> take k tmp = take k b)"
  using assms
  by (auto simp: cu_array_grow_def Let_def cu_realloc_def min_def split: if_splits)




subsection \<open>A run of appends\<close>






subsection \<open>Reading items back\<close>


lemma nth_item_append:
  assumes "size pre = s * n"
  shows "nth_item s (pre @ rest) (n + i) = nth_item s rest i"
proof -
  have "s * (n + i) = size pre + s * i" using assms by (simp add: distrib_left)
  then show ?thesis by (simp add: nth_item_def)
qed

lemma item_of_contents:
  assumes init: "initialized a" and pos: "unat pos < unat (length_f a)"
  shows "item_of a pos = Some (nth_item (unat (item_size a)) (contents a) (unat pos))"
proof -
  let ?s = "unat (item_size a)" and ?n = "unat (length_f a)" and ?c = "unat (capacity a)"
  let ?p = "unat pos"
  from init obtain b where b: "data a = Block b" and c0: "capacity a \<noteq> 0"
    and nc: "?n \<le> ?c" and sb: "size b = ?s * ?c" and c64: "?s * ?c < 2 ^ 64"
    by (rule initialized_facts)
  have off: "unat (item_size a * pos) = ?s * ?p"
    using c64 pos nc by (intro offset_no_wrap[of _ "capacity a"]) simp_all
  have inl: "?s * ?p + ?s \<le> ?s * ?n" using pos by (rule chunk_before)
  have "?s * ?n \<le> ?s * ?c" using nc by (rule mult_le_mono2)
  with inl have "?s * ?p + ?s \<le> ?s * ?c" by (rule le_trans)
  then have inb: "?s * ?p + ?s \<le> size b" unfolding sb .
  have at: "cu_array_at (Some a) pos = Some (?s * ?p)"
    using b c0 pos off by (simp add: cu_array_at_def word_le_nat_alt)
  have "take ?s (drop (?s * ?p) (take (?s * ?n) b)) = take ?s (drop (?s * ?p) b)"
    using inl by (simp add: drop_take min_def)
  then have "nth_item ?s (contents a) ?p = take ?s (drop (?s * ?p) b)"
    using b by (simp add: contents_def nth_item_def)
  then show ?thesis using at b inb by (simp add: item_of_def)
qed

lemma size_contents:
  assumes "initialized a"
  shows "size (contents a) = unat (item_size a) * unat (length_f a)"
proof -
  let ?s = "unat (item_size a)" and ?n = "unat (length_f a)" and ?c = "unat (capacity a)"
  from assms obtain b where b: "data a = Block b"
    and nc: "?n \<le> ?c" and sb: "size b = ?s * ?c"
    by (rule initialized_facts)
  have "?s * ?n \<le> ?s * ?c" using nc by (rule mult_le_mono2)
  then show ?thesis using b sb by (simp add: contents_def)
qed




subsection \<open>Extend\<close>










subsection \<open>Removal below the last position\<close>

lemma unat_times_size:
  fixes x sz c :: size_t
  assumes "unat sz * unat c < 2 ^ 64" and "unat x \<le> unat c"
  shows "unat (x * sz) = unat sz * unat x"
proof -
  have "unat (sz * x) = unat sz * unat x" using assms by (rule offset_no_wrap)
  then show ?thesis by (simp add: mult.commute)
qed

lemma take_write_at_part:
  assumes "d + size xs \<le> size mem" and "k \<le> size xs"
  shows "take (d + k) (write_at mem d xs) = take d mem @ take k xs"
  using assms by (simp add: write_at_def)

lemma remove_at_step:
  assumes init: "initialized a" and pos: "unat pos + 1 < unat (length_f a)"
    and room: "length_f a < capacity a"
  shows "\<exists>a1. cu_array_remove_at (Some a) pos = Inr (0, Some a1) \<and> initialized a1
           \<and> item_size a1 = item_size a \<and> unat (length_f a1) = unat (length_f a) - 1
           \<and> contents a1 = take (unat (item_size a) * unat pos) (contents a)
                 @ drop (unat (item_size a) * (unat pos + 1)) (contents a)"
proof -
  let ?s = "unat (item_size a)" and ?n = "unat (length_f a)" and ?c = "unat (capacity a)"
  let ?p = "unat pos"
  from init obtain b where b: "data a = Block b" and c0: "capacity a \<noteq> 0"
    and nc: "?n \<le> ?c" and sb: "size b = ?s * ?c" and c64: "?s * ?c < 2 ^ 64"
    by (rule initialized_facts)
  have n64: "?n < 2 ^ 64" using unsigned_less[of "length_f a"] by simp
  have lt: "?n < ?c" using room by (simp add: word_less_nat_alt)
  have p1: "unat (pos + 1) = ?p + 1" using pos n64 by (intro unat_succ[of pos ?n]) simp_all
  have op: "unat (item_size a * pos) = ?s * ?p"
    using c64 pos nc by (intro offset_no_wrap[of _ "capacity a"]) simp_all
  have op1: "unat (item_size a * (pos + 1)) = ?s * (?p + 1)"
    using c64 pos nc p1 offset_no_wrap[of "item_size a" "capacity a" "pos + 1"] by simp
  have diff: "unat (length_f a - pos) = ?n - ?p"
    using pos by (intro unat_sub) (simp add: word_le_nat_alt)
  have cnt: "unat ((length_f a - pos) * item_size a) = ?s * (?n - ?p)"
    using c64 nc diff unat_times_size[of "item_size a" "capacity a" "length_f a - pos"] by simp
  have at0: "cu_array_at (Some a) pos = Some (?s * ?p)"
    using b c0 pos op by (simp add: cu_array_at_def word_le_nat_alt)
  have at1: "cu_array_at (Some a) (pos + 1) = Some (?s * (?p + 1))"
    using b c0 pos op1 p1 by (simp add: cu_array_at_def word_le_nat_alt)
  define src where "src = take (?s * (?n - ?p)) (drop (?s * (?p + 1)) b)"
  define b1 where "b1 = write_at b (?s * ?p) src"
  have total: "?s * (?p + 1) + ?s * (?n - ?p) = ?s * (?n + 1)"
    using pos by (simp flip: distrib_left)
  have top: "?s * (?n + 1) \<le> ?s * ?c" using lt by (intro mult_le_mono2) simp
  have srcfit: "?s * (?n - ?p) \<le> size (drop (?s * (?p + 1)) b)"
    using total top sb by simp
  have dstfit: "?s * ?p + ?s * (?n - ?p) \<le> size b"
  proof -
    have "?s * ?p + ?s * (?n - ?p) = ?s * ?n" using pos by (simp flip: distrib_left)
    moreover have "?s * ?n \<le> ?s * ?c" using nc by (rule mult_le_mono2)
    ultimately show ?thesis using sb by simp
  qed
  have mv: "cu_memmove b (Some (?s * ?p)) (Some (?s * (?p + 1))) (?s * (?n - ?p)) = Inr b1"
    using memcpy_write[OF dstfit srcfit] by (simp add: cu_memmove_def b1_def src_def)
  let ?a1 = "a\<lparr>data := Block b1, length_f := length_f a - 1\<rparr>"
  have run: "cu_array_remove_at (Some a) pos = Inr (0, Some ?a1)"
    using b c0 pos at0 at1 cnt mv by (simp add: cu_array_remove_at_def word_le_nat_alt)
  have ssrc: "size src = ?s * (?n - ?p)" using srcfit by (simp add: src_def)
  have sb1: "size b1 = size b" unfolding b1_def using dstfit ssrc by (simp add: size_write_at)
  have pred: "unat (length_f a - 1) = ?n - 1" using pos by (intro unat_pred[of 0]) simp
  have "length_f a - 1 \<le> capacity a" using pred nc by (simp add: word_le_nat_alt)
  then have i1: "initialized ?a1" using b c0 sb sb1 c64 by (simp add: initialized_def)
  have split: "?s * (?n - 1) = ?s * ?p + ?s * (?n - 1 - ?p)"
    using pos by (simp flip: distrib_left)
  have shorter: "?s * (?n - 1 - ?p) \<le> ?s * (?n - ?p)" by (intro mult_le_mono2) simp
  have "take (?s * (?n - 1)) b1 = take (?s * ?p) b @ take (?s * (?n - 1 - ?p)) src"
    unfolding b1_def split using dstfit shorter ssrc by (intro take_write_at_part) simp_all
  also have "take (?s * (?n - 1 - ?p)) src = take (?s * (?n - 1 - ?p)) (drop (?s * (?p + 1)) b)"
  proof -
    have "?s * (?n - 1 - ?p) \<le> ?s * (?n - ?p)" by (intro mult_le_mono2) simp
    then show ?thesis by (simp add: src_def min_def)
  qed
  also have "\<dots> = drop (?s * (?p + 1)) (take (?s * ?n) b)"
  proof -
    have "?s * ?n - ?s * (?p + 1) = ?s * (?n - 1 - ?p)"
      using pos by (simp add: diff_mult_distrib2)
    then show ?thesis by (simp add: drop_take)
  qed
  finally have c1: "contents ?a1 = take (?s * ?p) (contents a) @ drop (?s * (?p + 1)) (contents a)"
  proof -
    assume e: "take (?s * (?n - 1)) b1
        = take (?s * ?p) b @ drop (?s * (?p + 1)) (take (?s * ?n) b)"
    have "?s * ?p \<le> ?s * ?n" using pos by (intro mult_le_mono2) simp
    then have "take (?s * ?p) (take (?s * ?n) b) = take (?s * ?p) b" by (simp add: min_def)
    then show ?thesis using e b pred by (simp add: contents_def)
  qed
  show ?thesis using run i1 pred c1 by auto
qed

subsection \<open>Insertion below the last position\<close>

lemma take_write_at_before:
  assumes "k \<le> d" and "d + size ys \<le> size mem"
  shows "take k (write_at mem d ys) = take k mem"
  using assms by (simp add: write_at_def min_def)

lemma drop_write_at:
  assumes "d + size ys \<le> size mem"
  shows "drop d (write_at mem d ys) = ys @ drop (d + size ys) mem"
  using assms by (simp add: write_at_def)

lemma insert_unfold:
  assumes "data a = Block b" and "capacity a \<noteq> 0" and "pos \<le> length_f a"
    and "length_f a < capacity a"
  shows "cu_array_insert heap_ok (Some a) (Some item) pos =
     (case cu_memmove b (cu_array_at (Some a) (pos + 1)) (cu_array_at (Some a) pos)
             (unat ((length_f a - pos) * item_size a)) of
        Inl f \<Rightarrow> Inl f
      | Inr b1 \<Rightarrow>
          (case cu_memcpy b1 (cu_array_at (Some a) pos) (Some item) (unat (item_size a)) of
             Inl f \<Rightarrow> Inl f
           | Inr b2 \<Rightarrow> Inr (0, Some (a\<lparr>data := Block b2, length_f := length_f a + 1\<rparr>))))"
  using assms by (simp add: cu_array_insert_def not_le[symmetric] del: not_le)

lemma insert_room:
  assumes init: "initialized a" and pos: "unat pos + 1 < unat (length_f a)"
    and room: "length_f a < capacity a"
    and run: "cu_array_insert heap_ok (Some a) (Some item) pos = Inr (0, Some a1)"
  shows "initialized a1 \<and> item_size a1 = item_size a
         \<and> unat (length_f a1) = unat (length_f a) + 1
         \<and> size (take (unat (item_size a)) item) = unat (item_size a)
         \<and> contents a1 = take (unat (item_size a) * unat pos) (contents a)
               @ take (unat (item_size a)) item
               @ drop (unat (item_size a) * unat pos) (contents a)"
proof -
  let ?s = "unat (item_size a)" and ?n = "unat (length_f a)" and ?c = "unat (capacity a)"
  let ?p = "unat pos"
  let ?xs = "take ?s item"
  from init obtain b where b: "data a = Block b" and c0: "capacity a \<noteq> 0"
    and nc: "?n \<le> ?c" and sb: "size b = ?s * ?c" and c64: "?s * ?c < 2 ^ 64"
    by (rule initialized_facts)
  have n64: "?n < 2 ^ 64" using unsigned_less[of "length_f a"] by simp
  have c64': "?c < 2 ^ 64" using unsigned_less[of "capacity a"] by simp
  have lt: "?n < ?c" using room by (simp add: word_less_nat_alt)
  have ple: "pos \<le> length_f a" using pos by (simp add: word_le_nat_alt)
  have p1: "unat (pos + 1) = ?p + 1" using pos n64 by (intro unat_succ[of pos ?n]) simp_all
  define P where "P = ?s * ?p"
  define K where "K = ?s * (?n - ?p)"
  define N where "N = ?s * ?n"
  have PK: "P + K = N" unfolding P_def K_def N_def using pos by (simp flip: distrib_left)
  have NC: "N + ?s \<le> size b" unfolding N_def sb using lt by (rule chunk_before)
  have op: "unat (item_size a * pos) = P"
    unfolding P_def using c64 pos nc by (intro offset_no_wrap[of _ "capacity a"]) simp_all
  have op1: "unat (item_size a * (pos + 1)) = P + ?s"
    unfolding P_def using c64 pos nc p1 offset_no_wrap[of "item_size a" "capacity a" "pos + 1"]
    by simp
  have diff: "unat (length_f a - pos) = ?n - ?p"
    using pos by (intro unat_sub) (simp add: word_le_nat_alt)
  have cnt: "unat ((length_f a - pos) * item_size a) = K"
    unfolding K_def
    using c64 nc diff unat_times_size[of "item_size a" "capacity a" "length_f a - pos"] by simp
  have at0: "cu_array_at (Some a) pos = Some P"
    using b c0 pos op by (simp add: cu_array_at_def word_le_nat_alt)
  have at1: "cu_array_at (Some a) (pos + 1) = Some (P + ?s)"
    using b c0 pos op1 p1 by (simp add: cu_array_at_def word_le_nat_alt)
  define src where "src = take K (drop P b)"
  define b1 where "b1 = write_at b (P + ?s) src"
  have srcfit: "K \<le> size (drop P b)" using PK NC by simp
  have dstfit: "P + ?s + K \<le> size b" using PK NC by simp
  have mv: "cu_memmove b (Some (P + ?s)) (Some P) K = Inr b1"
    using memcpy_write[OF dstfit srcfit] by (simp add: cu_memmove_def b1_def src_def)
  from run obtain b2 where cp: "cu_memcpy b1 (Some P) (Some item) ?s = Inr b2"
    and a1: "a1 = a\<lparr>data := Block b2, length_f := length_f a + 1\<rparr>"
    unfolding insert_unfold[OF b c0 ple room] at0 at1 cnt mv by (auto split: sum.splits)
  have ssrc: "size src = K" using srcfit by (simp add: src_def)
  have sb1: "size b1 = size b" unfolding b1_def using dstfit ssrc by (simp add: size_write_at)
  from memcpy_result[OF cp] have w: "b2 = write_at b1 P ?xs" and s2: "size b2 = size b1"
    and inb: "0 < ?s \<longrightarrow> ?s \<le> size item" by auto
  have sx: "size ?xs = ?s" using inb by (cases "?s = 0") auto
  have succ: "unat (length_f a + 1) = ?n + 1" using lt c64' by (rule unat_succ)
  have "length_f a + 1 \<le> capacity a" using succ lt by (simp add: word_le_nat_alt)
  then have i1: "initialized a1" using a1 c0 sb sb1 s2 c64 by (simp add: initialized_def)
  have pre: "take P b1 = take P b"
    unfolding b1_def using dstfit ssrc by (intro take_write_at_before) simp_all
  have post: "drop (P + size ?xs) b1 = src @ drop (N + ?s) b"
  proof -
    have "drop (P + ?s) b1 = src @ drop (P + ?s + size src) b"
      unfolding b1_def using dstfit ssrc by (intro drop_write_at) simp
    moreover have "P + ?s + K = N + ?s" using PK by simp
    ultimately show ?thesis using sx ssrc by simp
  qed
  have "b2 = (take P b @ ?xs @ src) @ drop (N + ?s) b"
    unfolding w write_at_def pre post by simp
  moreover have "size (take P b @ ?xs @ src) = N + ?s"
    using sx ssrc PK NC by simp
  ultimately have t: "take (N + ?s) b2 = take P b @ ?xs @ src"
    by (metis append_eq_conv_conj)
  have "?s * (?n + 1) = N + ?s" by (simp add: N_def)
  then have c1: "contents a1 = take P b @ ?xs @ src"
    using a1 succ t by (simp add: contents_def add.commute)
  have "drop P (take N b) = take (N - P) (drop P b)" by (rule drop_take)
  moreover have "N - P = K" using PK by simp
  ultimately have src': "src = drop P (contents a)"
    using b by (simp add: src_def contents_def N_def)
  have "take P (take N b) = take P b" using PK by (simp add: min_def)
  then have pre': "take P b = take P (contents a)"
    using b by (simp add: contents_def N_def)
  have "contents a1 = take P (contents a) @ ?xs @ drop P (contents a)"
    unfolding c1 src' pre' ..
  then show ?thesis using i1 a1 succ sx by (simp add: P_def)
qed

lemma grow_step:
  assumes init: "initialized a" and full: "capacity a \<le> length_f a"
    and g: "cu_array_grow heap_ok (Some a) = Inr (0, Some g)" and tmp: "data g = Block tmp"
    and fits: "0 < unat (item_size a) \<longrightarrow>
                 unat (item_size a) * unat (length_f a) + unat (item_size a) \<le> size tmp"
  shows "initialized g \<and> item_size g = item_size a \<and> length_f g = length_f a
         \<and> length_f g < capacity g \<and> contents g = contents a"
proof -
  let ?s = "unat (item_size a)" and ?n = "unat (length_f a)" and ?c = "unat (capacity a)"
  let ?N = "unat (item_size a * (capacity a * 2))"
  from init obtain b where b: "data a = Block b" and c0: "capacity a \<noteq> 0"
    and nc: "?n \<le> ?c" and sb: "size b = ?s * ?c" and c64: "?s * ?c < 2 ^ 64"
    by (rule initialized_facts)
  have eq: "?n = ?c" using nc full by (simp add: word_le_nat_alt)
  from grow_success[OF g] have gc: "capacity g = capacity a * 2" and gl: "length_f g = length_f a"
    and gs: "item_size g = item_size a" and below: "length_f a < capacity a * 2"
    by auto
  from grow_block[OF g b] tmp have st: "size tmp = ?N"
    and keep: "\<And>k. k \<le> size b \<Longrightarrow> k \<le> size tmp \<Longrightarrow> take k tmp = take k b"
    by auto
  have "capacity a < capacity a * 2" using full below by simp
  then have dbl: "unat (capacity a * 2) = 2 * ?c" by (rule double_no_wrap)
  define S where "S = ?s * ?c"
  have S64: "S < 2 ^ 64" using c64 by (simp add: S_def)
  have N: "?N = (S + S) mod 2 ^ 64"
  proof -
    have "?N = (?s * unat (capacity a * 2)) mod 2 ^ LENGTH(64)"
      by (rule unat_word_ariths(2))
    moreover have "?s * (2 * ?c) = S + S" by (simp add: S_def)
    ultimately show ?thesis unfolding dbl by simp
  qed
  have nowrap: "S + S < 2 ^ 64"
  proof (cases "?s = 0")
    case True
    then show ?thesis by (simp add: S_def)
  next
    case False
    show ?thesis
    proof (rule ccontr)
      assume "\<not> S + S < 2 ^ 64"
      then have "2 ^ 64 \<le> S + S" by simp
      then have "(S + S) mod 2 ^ 64 < S"
        using S64 by (intro mod_wrap_less) simp_all
      then have "?N < S" unfolding N .
      moreover have "S + ?s \<le> ?N" using fits False st eq by (simp add: S_def)
      ultimately show False by simp
    qed
  qed
  then have "?N = S + S" unfolding N by simp
  then have Neq: "?N = ?s * (2 * ?c)" by (simp add: S_def)
  have N64: "?s * (2 * ?c) < 2 ^ 64"
    unfolding Neq[symmetric] using unsigned_less[of "item_size a * (capacity a * 2)"] by simp
  have "length_f a \<le> capacity a * 2" using below by simp
  moreover have "capacity a * 2 \<noteq> 0" using below by auto
  moreover have "size tmp = ?s * unat (capacity a * 2)" using st Neq dbl by simp
  moreover have "size tmp < 2 ^ 64" using st Neq N64 by simp
  ultimately have ig: "initialized g"
    using tmp gc gs gl by (simp add: initialized_def)
  have "S \<le> size tmp" using st \<open>?N = S + S\<close> by simp
  then have "take (?s * ?n) tmp = take (?s * ?n) b"
    using sb eq by (intro keep) (simp_all add: S_def)
  then have "contents g = contents a" using tmp b gs gl by (simp add: contents_def)
  then show ?thesis using ig gs gl gc below by simp
qed

lemma insert_after_grow:
  assumes "data a = Block b" and "capacity a \<noteq> 0" and "pos \<le> length_f a"
    and "capacity a \<le> length_f a" and "cu_array_grow heap_ok (Some a) = Inr (0, Some g)"
  shows "cu_array_insert heap_ok (Some a) (Some item) pos
           = cu_array_insert heap_ok (Some g) (Some item) pos"
proof -
  from grow_success[OF assms(5)] have gl: "length_f g = length_f a"
    and below: "length_f g < capacity g" by auto
  from grow_block[OF assms(5,1)] obtain tmp where tmp: "data g = Block tmp" by blast
  have g0: "capacity g \<noteq> 0" using below by auto
  have "cu_array_insert heap_ok (Some a) (Some item) pos =
     (case cu_memmove tmp (cu_array_at (Some g) (pos + 1)) (cu_array_at (Some g) pos)
             (unat ((length_f g - pos) * item_size g)) of
        Inl f \<Rightarrow> Inl f
      | Inr b1 \<Rightarrow>
          (case cu_memcpy b1 (cu_array_at (Some g) pos) (Some item) (unat (item_size g)) of
             Inl f \<Rightarrow> Inl f
           | Inr b2 \<Rightarrow> Inr (0, Some (g\<lparr>data := Block b2, length_f := length_f g + 1\<rparr>))))"
    using assms tmp by (simp add: cu_array_insert_def not_le[symmetric] del: not_le)
  also have "\<dots> = cu_array_insert heap_ok (Some g) (Some item) pos"
    using insert_unfold[OF tmp g0 _ below] assms(3) gl by simp
  finally show ?thesis .
qed

lemma insert_grow_outcome:
  assumes "data a = Block b" and "capacity a \<noteq> 0" and "pos \<le> length_f a"
    and "capacity a \<le> length_f a"
    and "cu_array_insert heap_ok (Some a) (Some item) pos = Inr (0, Some a1)"
  shows "\<exists>g. cu_array_grow heap_ok (Some a) = Inr (0, Some g)"
  using assms
  by (auto simp: cu_array_insert_def cu_array_grow_def cu_realloc_def Let_def not_le[symmetric]
      simp del: not_le split: if_splits option.splits pointer.splits sum.splits prod.splits)

lemma insert_full:
  assumes init: "initialized a" and pos: "unat pos + 1 < unat (length_f a)"
    and full: "capacity a \<le> length_f a"
    and run: "cu_array_insert heap_ok (Some a) (Some item) pos = Inr (0, Some a1)"
  shows "initialized a1 \<and> item_size a1 = item_size a
         \<and> unat (length_f a1) = unat (length_f a) + 1
         \<and> size (take (unat (item_size a)) item) = unat (item_size a)
         \<and> contents a1 = take (unat (item_size a) * unat pos) (contents a)
               @ take (unat (item_size a)) item
               @ drop (unat (item_size a) * unat pos) (contents a)"
proof -
  let ?s = "unat (item_size a)" and ?n = "unat (length_f a)" and ?c = "unat (capacity a)"
  let ?p = "unat pos"
  from init obtain b where b: "data a = Block b" and c0: "capacity a \<noteq> 0"
    and nc: "?n \<le> ?c" and sb: "size b = ?s * ?c" and c64: "?s * ?c < 2 ^ 64"
    by (rule initialized_facts)
  have n64: "?n < 2 ^ 64" using unsigned_less[of "length_f a"] by simp
  have ple: "pos \<le> length_f a" using pos by (simp add: word_le_nat_alt)
  from insert_grow_outcome[OF b c0 ple full run]
  obtain g where g: "cu_array_grow heap_ok (Some a) = Inr (0, Some g)" by blast
  from grow_success[OF g] have gl: "length_f g = length_f a"
    and gs: "item_size g = item_size a" and below: "length_f g < capacity g" by auto
  from grow_block[OF g b] obtain tmp where tmp: "data g = Block tmp" by blast
  have g0: "capacity g \<noteq> 0" using below by auto
  have run': "cu_array_insert heap_ok (Some g) (Some item) pos = Inr (0, Some a1)"
    using insert_after_grow[OF b c0 ple full g] run by simp
  have p1: "unat (pos + 1) = ?p + 1" using pos n64 by (intro unat_succ[of pos ?n]) simp_all
  define P where "P = ?s * ?p"
  define K where "K = ?s * (?n - ?p)"
  have PK: "P + ?s + K = ?s * ?n + ?s" unfolding P_def K_def using pos
    by (simp flip: distrib_left)
  have op1: "unat (item_size a * (pos + 1)) = P + ?s"
    unfolding P_def using c64 pos nc p1 offset_no_wrap[of "item_size a" "capacity a" "pos + 1"]
    by simp
  have diff: "unat (length_f a - pos) = ?n - ?p"
    using pos by (intro unat_sub) (simp add: word_le_nat_alt)
  have cnt: "unat ((length_f a - pos) * item_size a) = K"
    unfolding K_def
    using c64 nc diff unat_times_size[of "item_size a" "capacity a" "length_f a - pos"] by simp
  have at1: "cu_array_at (Some g) (pos + 1) = Some (P + ?s)"
    using tmp g0 gl gs pos op1 p1 by (simp add: cu_array_at_def word_le_nat_alt)
  from run' obtain b1 where
    "cu_memmove tmp (Some (P + ?s)) (cu_array_at (Some g) pos) K = Inr b1"
    unfolding insert_unfold[OF tmp g0 ple[folded gl] below] at1 gl gs cnt
    by (auto split: sum.splits)
  then have "0 < K \<longrightarrow> P + ?s + K \<le> size tmp"
    by (auto simp: cu_memmove_def cu_memcpy_def split: if_splits option.splits pointer.splits)
  moreover have "0 < ?s \<longrightarrow> 0 < K" using pos by (simp add: K_def)
  ultimately have fits: "0 < ?s \<longrightarrow> ?s * ?n + ?s \<le> size tmp" using PK by auto
  from grow_step[OF init full g tmp fits]
  have ig: "initialized g" and cg: "contents g = contents a" by auto
  from insert_room[OF ig pos[folded gl] below run']
  show ?thesis unfolding gs gl cg .
qed

lemma insert_step:
  assumes "initialized a" and "unat pos + 1 < unat (length_f a)"
    and "cu_array_insert heap_ok (Some a) (Some item) pos = Inr (0, Some a1)"
  shows "initialized a1 \<and> item_size a1 = item_size a
         \<and> unat (length_f a1) = unat (length_f a) + 1
         \<and> size (take (unat (item_size a)) item) = unat (item_size a)
         \<and> contents a1 = take (unat (item_size a) * unat pos) (contents a)
               @ take (unat (item_size a)) item
               @ drop (unat (item_size a) * unat pos) (contents a)"
proof (cases "capacity a \<le> length_f a")
  case True
  then show ?thesis using assms by (intro insert_full)
next
  case False
  then have "length_f a < capacity a" by simp
  then show ?thesis using assms by (intro insert_room)
qed

lemma nth_item_take:
  assumes "k < m"
  shows "nth_item s (take (s * m) xs) k = nth_item s xs k"
proof -
  have "s * k + s \<le> s * m" using assms by (rule chunk_before)
  then show ?thesis by (simp add: nth_item_def drop_take min_def)
qed

lemma nth_item_drop: "nth_item s (drop (s * m) xs) k = nth_item s xs (m + k)"
  by (simp add: nth_item_def distrib_left add.commute)

lemma nth_item_prefix:
  assumes "s * k + s \<le> size pre"
  shows "nth_item s (pre @ rest) k = nth_item s pre k"
  using assms by (simp add: nth_item_def)

lemma nth_item_first:
  assumes "size x = s"
  shows "nth_item s (x @ rest) 0 = x"
  using assms by (simp add: nth_item_def)

text \<open>
  What \<open>cu_array_insert\<close> does for the positions it serves, those below \<open>length - 1\<close>:
  the new item is at \<open>pos\<close>, the items before it stay and those from \<open>pos\<close> on move up
  by one.
\<close>

lemma insert_below_end:
  assumes init: "initialized a" and pos: "unat pos + 1 < unat (length_f a)"
    and run: "cu_array_insert heap_ok (Some a) (Some item) pos = Inr (0, Some a1)"
  shows "unat (length_f a1) = unat (length_f a) + 1"
    and "item_of a1 pos = Some (take (unat (item_size a)) item)"
    and "unat i < unat pos \<Longrightarrow> item_of a1 i = item_of a i"
proof -
  let ?s = "unat (item_size a)" and ?n = "unat (length_f a)" and ?p = "unat pos"
  let ?A = "take (?s * ?p) (contents a)" and ?X = "take ?s item"
  let ?B = "drop (?s * ?p) (contents a)"
  from insert_step[OF assms]
  have i1: "initialized a1" and s1: "item_size a1 = item_size a"
    and l1: "unat (length_f a1) = ?n + 1" and sx: "size ?X = ?s"
    and c1: "contents a1 = ?A @ ?X @ ?B"
    by auto
  have sc: "size (contents a) = ?s * ?n" using init by (rule size_contents)
  have "?s * ?p \<le> ?s * ?n" using pos by (intro mult_le_mono2) simp
  then have sa: "size ?A = ?s * ?p" using sc by simp
  have n64: "?n < 2 ^ 64" using unsigned_less[of "length_f a"] by simp
  show "unat (length_f a1) = ?n + 1" by (rule l1)
  show "item_of a1 pos = Some ?X"
  proof -
    have "item_of a1 pos = Some (nth_item ?s (contents a1) ?p)"
      using item_of_contents[OF i1, of pos] pos l1 s1 by simp
    also have "nth_item ?s (contents a1) ?p = nth_item ?s (?X @ ?B) 0"
      unfolding c1 using nth_item_append[OF sa, of "?X @ ?B" 0] by simp
    also have "\<dots> = ?X" using sx by (rule nth_item_first)
    finally show ?thesis .
  qed
  show "item_of a1 i = item_of a i" if "unat i < ?p"
  proof -
    have fit: "?s * unat i + ?s \<le> size ?A" unfolding sa using that by (rule chunk_before)
    have "item_of a1 i = Some (nth_item ?s (contents a1) (unat i))"
      using item_of_contents[OF i1, of i] that pos l1 s1 by simp
    also have "nth_item ?s (contents a1) (unat i) = nth_item ?s ?A (unat i)"
      unfolding c1 using fit by (rule nth_item_prefix)
    also have "\<dots> = nth_item ?s (contents a) (unat i)" using that by (rule nth_item_take)
    also have "Some \<dots> = item_of a i"
      using item_of_contents[OF init, of i] that pos by simp
    finally show ?thesis .
  qed
qed

lemma insert_moves_up:
  assumes init: "initialized a" and pos: "unat pos + 1 < unat (length_f a)"
    and run: "cu_array_insert heap_ok (Some a) (Some item) pos = Inr (0, Some a1)"
    and lo: "unat pos \<le> unat i" and hi: "unat i < unat (length_f a)"
  shows "item_of a1 (i + 1) = item_of a i"
proof -
  let ?s = "unat (item_size a)" and ?n = "unat (length_f a)" and ?p = "unat pos"
  let ?A = "take (?s * ?p) (contents a)" and ?X = "take ?s item"
  let ?B = "drop (?s * ?p) (contents a)"
  from insert_step[OF init pos run]
  have i1: "initialized a1" and s1: "item_size a1 = item_size a"
    and l1: "unat (length_f a1) = ?n + 1" and sx: "size ?X = ?s"
    and c1: "contents a1 = ?A @ ?X @ ?B"
    by auto
  have sc: "size (contents a) = ?s * ?n" using init by (rule size_contents)
  have "?s * ?p \<le> ?s * ?n" using pos by (intro mult_le_mono2) simp
  then have sa: "size ?A = ?s * ?p" using sc by simp
  have n64: "?n < 2 ^ 64" using unsigned_less[of "length_f a"] by simp
  have succ: "unat (i + 1) = unat i + 1" using hi n64 by (rule unat_succ)
  obtain e where e: "unat i = ?p + e" using lo le_Suc_ex by blast
  have below: "unat (i + 1) < unat (length_f a1)" unfolding succ l1 using hi by simp
  have idx: "unat (i + 1) = ?p + (1 + e)" unfolding succ e by simp
  have sx1: "size ?X = ?s * 1" using sx by simp
  have "item_of a1 (i + 1) = Some (nth_item (unat (item_size a1)) (contents a1) (unat (i + 1)))"
    using i1 below by (rule item_of_contents)
  also have "nth_item (unat (item_size a1)) (contents a1) (unat (i + 1))
      = nth_item ?s (?A @ ?X @ ?B) (?p + (1 + e))"
    unfolding s1 c1 idx ..
  also have "\<dots> = nth_item ?s (?X @ ?B) (1 + e)" using sa by (rule nth_item_append)
  also have "\<dots> = nth_item ?s ?B e" using sx1 by (rule nth_item_append)
  also have "\<dots> = nth_item ?s (contents a) (?p + e)" by (rule nth_item_drop)
  also have "Some \<dots> = item_of a i"
    using item_of_contents[OF init hi] unfolding e by simp
  finally show ?thesis .
qed

text \<open>
  What \<open>cu_array_remove_at\<close> does for the positions it serves, those below \<open>length - 1\<close>
  of an array that is not full: the items before \<open>pos\<close> stay and those after it move
  down by one.
\<close>

lemma remove_below_end:
  assumes init: "initialized a" and pos: "unat pos + 1 < unat (length_f a)"
    and room: "length_f a < capacity a"
  shows "\<exists>a1. cu_array_remove_at (Some a) pos = Inr (0, Some a1)
           \<and> unat (length_f a1) = unat (length_f a) - 1
           \<and> (\<forall>i. unat i < unat pos \<longrightarrow> item_of a1 i = item_of a i)
           \<and> (\<forall>i. unat pos \<le> unat i \<and> unat i + 1 < unat (length_f a) \<longrightarrow>
                  item_of a1 i = item_of a (i + 1))"
proof -
  let ?s = "unat (item_size a)" and ?n = "unat (length_f a)" and ?p = "unat pos"
  let ?A = "take (?s * ?p) (contents a)"
  let ?B = "drop (?s * (?p + 1)) (contents a)"
  from remove_at_step[OF assms] obtain a1
    where run: "cu_array_remove_at (Some a) pos = Inr (0, Some a1)"
      and i1: "initialized a1" and s1: "item_size a1 = item_size a"
      and l1: "unat (length_f a1) = ?n - 1" and c1: "contents a1 = ?A @ ?B"
    by blast
  have sc: "size (contents a) = ?s * ?n" using init by (rule size_contents)
  have "?s * ?p \<le> ?s * ?n" using pos by (intro mult_le_mono2) simp
  then have sa: "size ?A = ?s * ?p" using sc by simp
  have n64: "?n < 2 ^ 64" using unsigned_less[of "length_f a"] by simp
  have before: "item_of a1 i = item_of a i" if lt: "unat i < ?p" for i
  proof -
    have fit: "?s * unat i + ?s \<le> size ?A" unfolding sa using lt by (rule chunk_before)
    have in1: "unat i < unat (length_f a1)" unfolding l1 using lt pos by simp
    have in0: "unat i < ?n" using lt pos by simp
    have "item_of a1 i = Some (nth_item (unat (item_size a1)) (contents a1) (unat i))"
      using i1 in1 by (rule item_of_contents)
    also have "nth_item (unat (item_size a1)) (contents a1) (unat i)
        = nth_item ?s (?A @ ?B) (unat i)"
      unfolding s1 c1 ..
    also have "\<dots> = nth_item ?s ?A (unat i)" using fit by (rule nth_item_prefix)
    also have "\<dots> = nth_item ?s (contents a) (unat i)" using lt by (rule nth_item_take)
    also have "Some \<dots> = item_of a i" using item_of_contents[OF init in0] by simp
    finally show ?thesis .
  qed
  have after: "item_of a1 i = item_of a (i + 1)"
    if lo: "?p \<le> unat i" and hi: "unat i + 1 < ?n" for i
  proof -
    have "unat i < ?n" using hi by simp
    then have succ: "unat (i + 1) = unat i + 1" using n64 by (rule unat_succ)
    obtain e where e: "unat i = ?p + e" using lo le_Suc_ex by blast
    have in1: "unat i < unat (length_f a1)" unfolding l1 using hi by simp
    have in0: "unat (i + 1) < ?n" unfolding succ using hi by simp
    have idx: "unat (i + 1) = ?p + 1 + e" unfolding succ e by simp
    have "item_of a1 i = Some (nth_item (unat (item_size a1)) (contents a1) (unat i))"
      using i1 in1 by (rule item_of_contents)
    also have "nth_item (unat (item_size a1)) (contents a1) (unat i)
        = nth_item ?s (?A @ ?B) (?p + e)"
      unfolding s1 c1 e ..
    also have "\<dots> = nth_item ?s ?B e" using sa by (rule nth_item_append)
    also have "\<dots> = nth_item ?s (contents a) (?p + 1 + e)" by (rule nth_item_drop)
    also have "Some \<dots> = item_of a (i + 1)"
      using item_of_contents[OF init in0] unfolding idx by simp
    finally show ?thesis .
  qed
  show ?thesis using run l1 before after by blast
qed

end
